theory Spec2Isabelle
  imports Main "HOL-Library.Word"
begin

unbundle bit_operations_syntax

section \<open>The sdcard FUSE daemon: data model\<close>

text \<open>
  The embedding follows \<^verbatim>\<open>sdcard/sdcard.c\<close>. Pointers are 64-bit addresses, with 0 for
  the null pointer; \<^verbatim>\<open>ptr_to_id\<close> and \<^verbatim>\<open>id_to_ptr\<close> are casts and so the identity.
  The nodes live in an explicit store from addresses to structs. Dereferencing the null
  pointer, or an address that holds no node (a freed node, a number the kernel made up),
  is undefined behaviour in C and a \<open>fault\<close> here, and so is the overflow of a signed
  integer; the fault is recorded with the state in which it is raised, and ends the run.

  A C string is the list of its characters before the terminator; a \<^verbatim>\<open>char *\<close> that may
  be null is a \<open>string option\<close>. The host file system is not part of the program: what a
  system call answers, for the path and the arguments it is given, is an input of the
  model (the record \<open>sys\<close>), and so is what an allocation answers.
\<close>

type_synonym u32 = "32 word"
type_synonym u64 = "64 word"
type_synonym addr = "64 word"

datatype fault = Null_deref | Bad_pointer | Signed_overflow

text \<open>The constants of \<^verbatim>\<open>errno.h\<close> the daemon uses (Linux values).\<close>

definition ENOENT :: int where "ENOENT = 2"
definition EINTR :: int where "EINTR = 4"
definition ENOMEM :: int where "ENOMEM = 12"
definition EINVAL :: int where "EINVAL = 22"
definition ENOSYS :: int where "ENOSYS = 38"

definition FUSE_ROOT_ID :: u64 where "FUSE_ROOT_ID = 1"

text \<open>
  The constants the daemon takes from \<^verbatim>\<open>fuse.h\<close> and
  \<^verbatim>\<open>private/android_filesystem_config.h\<close>. Neither header is part of the source file,
  so they are parameters of the model.
\<close>

record headers =
  AID_SDCARD_RW :: u32
  FUSE_KERNEL_VERSION :: u32
  FUSE_KERNEL_MINOR_VERSION :: u32
  FUSE_ATOMIC_O_TRUNC :: u32
  FATTR_SIZE :: u32
  sizeof_fuse_in_header :: u32

subsection \<open>Host stat records and FUSE attributes\<close>

text \<open>The fields of \<^verbatim>\<open>struct stat\<close> that \<^verbatim>\<open>attr_from_stat\<close> reads, at the width
  of the attribute field each one is assigned to.\<close>

record stat =
  st_ino :: u64
  st_size :: u64
  st_blocks :: u64
  st_atime :: u64
  st_mtime :: u64
  st_ctime :: u64
  st_atime_nsec :: u32
  st_mtime_nsec :: u32
  st_ctime_nsec :: u32
  st_mode :: u32
  st_nlink :: u32

record fuse_attr =
  ino :: u64
  fsize :: u64
  blocks :: u64
  atime :: u64
  mtime :: u64
  ctime :: u64
  atimensec :: u32
  mtimensec :: u32
  ctimensec :: u32
  mode :: u32
  nlink :: u32
  uid :: u32
  gid :: u32

text \<open>\<^verbatim>\<open>memset(&out, 0, sizeof(out))\<close> on an attribute record.\<close>

definition zero_attr :: fuse_attr where
  "zero_attr = \<lparr>ino = 0, fsize = 0, blocks = 0, atime = 0, mtime = 0, ctime = 0,
     atimensec = 0, mtimensec = 0, ctimensec = 0, mode = 0, nlink = 0, uid = 0, gid = 0\<rparr>"

text \<open>The octal mode constants of the source: \<^verbatim>\<open>0100\<close> is 64, \<^verbatim>\<open>0777\<close> is 511,
  \<^verbatim>\<open>0775\<close> is 509 and \<^verbatim>\<open>0664\<close> is 436.\<close>

definition attr_from_stat :: "headers \<Rightarrow> fuse_attr \<Rightarrow> stat \<Rightarrow> fuse_attr" where
  "attr_from_stat k attr s =
     (let a1 = attr\<lparr>ino := st_ino s, fsize := st_size s, blocks := st_blocks s,
                 atime := st_atime s, mtime := st_mtime s, ctime := st_ctime s,
                 atimensec := st_atime_nsec s, mtimensec := st_mtime_nsec s,
                 ctimensec := st_ctime_nsec s, mode := st_mode s, nlink := st_nlink s\<rparr>;
          a2 = (if mode a1 AND 64 \<noteq> 0
                then a1\<lparr>mode := (mode a1 AND NOT 511) OR 509\<rparr>
                else a1\<lparr>mode := (mode a1 AND NOT 511) OR 436\<rparr>)
      in a2\<lparr>uid := 0, gid := AID_SDCARD_RW k\<rparr>)"

subsection \<open>Nodes\<close>

text \<open>\<^verbatim>\<open>struct node\<close>. The name is \<open>None\<close> while the \<^verbatim>\<open>name\<close> pointer is null.\<close>

record node =
  nid :: u64
  gen :: u64
  next_sibling :: addr
  child :: addr
  all_nodes :: addr
  parent :: addr
  refcount :: u32
  namelen :: u32
  name :: "string option"

definition dec_refcount :: "node \<Rightarrow> node" where
  "dec_refcount n = (if 0 < refcount n then n\<lparr>refcount := refcount n - 1\<rparr> else n)"


definition zero_node :: node where
  "zero_node = \<lparr>nid = 0, gen = 0, next_sibling = 0, child = 0, all_nodes = 0, parent = 0,
     refcount = 0, namelen = 0, name = None\<rparr>"

subsection \<open>Replies on the kernel channel\<close>

text \<open>The fields of the host's \<^verbatim>\<open>struct statfs\<close> and \<^verbatim>\<open>struct dirent\<close> that the daemon reads.\<close>

record statfs =
  f_blocks :: u64
  f_bfree :: u64
  f_bavail :: u64
  f_files :: u64
  f_ffree :: u64
  f_bsize :: u32
  f_namelen :: u32
  f_frsize :: u32

datatype dirent = Dirent (d_type: u32) (d_name: string)

text \<open>
  The bodies of the replies: \<^verbatim>\<open>fuse_entry_out\<close> (nodeid, generation, entry_valid,
  attr_valid, attr), \<^verbatim>\<open>fuse_attr_out\<close> (attr_valid, attr), \<^verbatim>\<open>fuse_open_out\<close> (fh,
  open_flags) as OPEN fills it and as OPENDIR does (fh only), the bytes of a READ,
  \<^verbatim>\<open>fuse_write_out\<close> (size), \<^verbatim>\<open>fuse_statfs_out\<close>, a \<^verbatim>\<open>fuse_dirent\<close> (ino, off,
  namelen, type, name) and \<^verbatim>\<open>fuse_init_out\<close> (major, minor, max_readahead, flags,
  max_background, congestion_threshold, max_write).
\<close>

datatype body =
    Entry_out u64 u64 u64 u64 fuse_attr
  | Attr_out u64 fuse_attr
  | Open_out u64 u32
  | Opendir_out u64
  | Read_out "8 word list"
  | Write_out u32
  | Statfs_out u64 u64 u64 u64 u64 u32 u32 u32
  | Dirent_out u64 u64 u32 u32 string
  | Init_out u32 u32 u32 u32 u32 u32 u32

text \<open>A message written on the channel: the \<^verbatim>\<open>fuse_out_header\<close> fields \<^verbatim>\<open>error\<close> and
  \<^verbatim>\<open>unique\<close>, and the body, if any. The header's \<^verbatim>\<open>len\<close> is the size of what is written
  and so determined by the body.\<close>

record out_msg =
  out_error :: int
  out_unique :: u64
  out_body :: "body option"

subsection \<open>The outcomes of system calls\<close>

text \<open>The host calls that return an \<^verbatim>\<open>int\<close>, with their arguments.\<close>

datatype call =
    Truncate "string option" u64
  | Mknod "string option" u32 u32
  | Mkdir "string option" u32
  | Unlink "string option"
  | Rmdir "string option"
  | Rename "string option" "string option"
  | Open "string option" u32
  | Pwrite64 int "8 word list" u32 u64
  | Close int
  | Closedir addr

text \<open>
  What the environment answers while one request is handled. A failing call is \<open>Inl e\<close>,
  with \<open>e\<close> the value it leaves in \<^verbatim>\<open>errno\<close>. The allocators answer an address, 0 when
  out of memory. \<open>sys_write\<close> and \<open>sys_writev\<close> are \<open>Some e\<close> when the write on the
  channel fails.
\<close>

record sys =
  sys_lstat :: "string option \<Rightarrow> int + stat"
  sys_calloc :: addr
  sys_malloc :: addr
  sys_realloc :: addr
  sys_call :: "call \<Rightarrow> int + int"
  sys_pread64 :: "int \<Rightarrow> u32 \<Rightarrow> u64 \<Rightarrow> int + 8 word list"
  sys_statfs :: "string option \<Rightarrow> int + statfs"
  sys_opendir :: "string option \<Rightarrow> int + addr"
  sys_readdir :: "addr \<Rightarrow> dirent option"
  sys_write :: "int option"
  sys_writev :: "int option"

subsection \<open>The state of the daemon\<close>

text \<open>
  \<^verbatim>\<open>struct fuse\<close> (\<open>next_generation\<close>, \<open>next_node_id\<close>, \<open>fd\<close>, \<open>all\<close>, and \<open>root\<close>, the
  address of the embedded root node), the allocated nodes, file handles (\<^verbatim>\<open>struct handle\<close>,
  of which only \<^verbatim>\<open>fd\<close> is ever written) and directory handles (\<^verbatim>\<open>struct dirhandle\<close>, its
  \<^verbatim>\<open>DIR *\<close>), \<^verbatim>\<open>errno\<close>, the messages written on the channel so far, oldest first, and the
  global \<^verbatim>\<open>force_lower_case\<close>.
\<close>

record state =
  next_generation :: u64
  next_node_id :: u64
  fd :: int
  all :: addr
  root :: addr
  nodes :: "addr \<rightharpoonup> node"
  handles :: "addr \<rightharpoonup> int"
  dirhandles :: "addr \<rightharpoonup> addr"
  errno :: int
  sent :: "out_msg list"
  force_lower_case :: bool

text \<open>A step either faults, in some state, or returns a value; a computation with a loop
  may also not return (\<open>None\<close>).\<close>

type_synonym 'a outcome = "(fault \<times> state) + 'a"

type_synonym 'a res = "'a outcome option"

definition sbind :: "'a outcome \<Rightarrow> ('a \<Rightarrow> 'b outcome) \<Rightarrow> 'b outcome" where
  "sbind m f = (case m of Inl e \<Rightarrow> Inl e | Inr x \<Rightarrow> f x)"

definition rbind :: "'a res \<Rightarrow> ('a \<Rightarrow> 'b res) \<Rightarrow> 'b res" where
  "rbind m f = Option.bind m (\<lambda>r. case r of Inl e \<Rightarrow> Some (Inl e) | Inr x \<Rightarrow> f x)"

definition node_at :: "state \<Rightarrow> addr \<Rightarrow> node outcome" where
  "node_at s p =
     (if p = 0 then Inl (Null_deref, s)
      else case nodes s p of None \<Rightarrow> Inl (Bad_pointer, s) | Some n \<Rightarrow> Inr n)"

definition update_node :: "state \<Rightarrow> addr \<Rightarrow> (node \<Rightarrow> node) \<Rightarrow> state outcome" where
  "update_node s p f = sbind (node_at s p) (\<lambda>n. Inr (s\<lparr>nodes := (nodes s)(p \<mapsto> f n)\<rparr>))"

definition handle_at :: "state \<Rightarrow> addr \<Rightarrow> int outcome" where
  "handle_at s p =
     (if p = 0 then Inl (Null_deref, s)
      else case handles s p of None \<Rightarrow> Inl (Bad_pointer, s) | Some h \<Rightarrow> Inr h)"

definition dirhandle_at :: "state \<Rightarrow> addr \<Rightarrow> addr outcome" where
  "dirhandle_at s p =
     (if p = 0 then Inl (Null_deref, s)
      else case dirhandles s p of None \<Rightarrow> Inl (Bad_pointer, s) | Some h \<Rightarrow> Inr h)"

text \<open>A host call: its return value, and \<^verbatim>\<open>errno\<close> set when it fails.\<close>

definition host :: "sys \<Rightarrow> state \<Rightarrow> call \<Rightarrow> int \<times> state" where
  "host y s c = (case sys_call y c of Inl e \<Rightarrow> (- 1, s\<lparr>errno := e\<rparr>) | Inr r \<Rightarrow> (r, s))"

section \<open>Host paths\<close>

text \<open>\<^verbatim>\<open>tolower\<close> in the C locale (the daemon sets no other), and \<^verbatim>\<open>normalize_name\<close>.\<close>

definition tolower :: "char \<Rightarrow> char" where
  "tolower c =
     (case map_of (zip ''ABCDEFGHIJKLMNOPQRSTUVWXYZ'' ''abcdefghijklmnopqrstuvwxyz'') c of
        None \<Rightarrow> c
      | Some l \<Rightarrow> l)"

definition normalize_name :: "state \<Rightarrow> string \<Rightarrow> string" where
  "normalize_name s nm = (if force_lower_case s then map tolower nm else nm)"

definition PATH_BUFFER_SIZE :: nat where "PATH_BUFFER_SIZE = 1024"

text \<open>
  \<^verbatim>\<open>memcpy(out, name, len)\<close> in \<^verbatim>\<open>node_get_path\<close>: the bytes it reads. A name buffer has
  the size of the name and its terminator. A negative \<^verbatim>\<open>len\<close> is a size of more than half
  the address space.
\<close>

definition copy_name :: "state \<Rightarrow> string option \<Rightarrow> int \<Rightarrow> string outcome" where
  "copy_name s nm l =
     (if l < 0 then Inl (Bad_pointer, s)
      else case nm of
        None \<Rightarrow> if l = 0 then Inr [] else Inl (Null_deref, s)
      | Some b \<Rightarrow>
          if nat l \<le> length b + 1 then Inr (take (nat l) (b @ [CHR 0x00]))
          else Inl (Bad_pointer, s))"

text \<open>
  The loop of \<^verbatim>\<open>node_get_path\<close>, entered at the label \<^verbatim>\<open>start\<close>: \<open>nm\<close> and \<open>l\<close> are
  \<^verbatim>\<open>name\<close> and \<^verbatim>\<open>len\<close>, \<open>node\<close> is the node the loop goes on with, \<open>room\<close> is
  \<^verbatim>\<open>out - buf\<close>, and \<open>acc\<close> is what the buffer holds from \<^verbatim>\<open>out\<close> to the terminator
  written first. The result is \<open>None\<close> when the function returns 0. The length of a node
  is a \<^verbatim>\<open>__u32\<close> read into an \<^verbatim>\<open>int\<close>; \<^verbatim>\<open>len + 1\<close> overflows when \<^verbatim>\<open>len\<close> is the
  largest \<^verbatim>\<open>int\<close>.
\<close>

function path_from ::
  "state \<Rightarrow> string option \<Rightarrow> int \<Rightarrow> addr \<Rightarrow> nat \<Rightarrow> string \<Rightarrow> string option outcome" where
  "path_from s nm l node room acc =
     (if l = 2147483647 then Inl (Signed_overflow, s)
      else if l + 1 > int room then Inr None
      else
        (case copy_name s nm l of
           Inl e \<Rightarrow> Inl e
         | Inr b \<Rightarrow>
             if node = 0 then Inr (Some (CHR ''/'' # b @ acc))
             else
               (case nodes s node of
                  None \<Rightarrow> Inl (Bad_pointer, s)
                | Some n \<Rightarrow>
                    path_from s (name n) (sint (namelen n)) (parent n) (room - nat l - 1)
                      (CHR ''/'' # b @ acc))))"
  by pat_completeness auto

termination
proof (relation "measure (\<lambda>(s, nm, l, node, room, acc). room)")
  show "wf (measure (\<lambda>(s, nm, l, node, room, acc). room))" by simp
next
  fix s :: state and nm l node room and acc :: string and b n
  assume "\<not> l + 1 > int room" "copy_name s nm l = Inr b"
  then have "0 \<le> l" "l + 1 \<le> int room"
    by (auto simp add: copy_name_def split: if_splits)
  then show "((s, name n, sint (namelen n), parent n, room - nat l - 1, CHR ''/'' # b @ acc),
              (s, nm, l, node, room, acc)) \<in> measure (\<lambda>(s, nm, l, node, room, acc). room)"
    by simp
qed

declare path_from.simps [simp del]

text \<open>
  \<^verbatim>\<open>node_get_path\<close>. What it returns is the C string at \<^verbatim>\<open>out\<close>, which ends at the first
  terminator in the buffer.
\<close>

definition node_get_path :: "state \<Rightarrow> addr \<Rightarrow> string option \<Rightarrow> string option outcome" where
  "node_get_path s node nm =
     sbind (case nm of
              Some b \<Rightarrow> path_from s (Some b) (int (length b)) node (PATH_BUFFER_SIZE - 1) []
            | None \<Rightarrow>
                if node = 0 then Inr (Some [])
                else sbind (node_at s node) (\<lambda>n.
                  path_from s (name n) (sint (namelen n)) (parent n) (PATH_BUFFER_SIZE - 1) []))
       (\<lambda>r. Inr (map_option (\<lambda>bytes. normalize_name s (takeWhile (\<lambda>c. c \<noteq> CHR 0x00) bytes)) r))"

section \<open>The node table\<close>

definition add_node_to_parent :: "state \<Rightarrow> addr \<Rightarrow> addr \<Rightarrow> state outcome" where
  "add_node_to_parent s node par =
     sbind (update_node s node (\<lambda>n. n\<lparr>parent := par\<rparr>)) (\<lambda>s1.
     sbind (node_at s1 par) (\<lambda>p.
     sbind (update_node s1 node (\<lambda>n. n\<lparr>next_sibling := child p\<rparr>)) (\<lambda>s2.
     sbind (update_node s2 par (\<lambda>p. p\<lparr>child := node\<rparr>)) (\<lambda>s3.
     update_node s3 par (\<lambda>p. p\<lparr>refcount := refcount p + 1\<rparr>)))))"

text \<open>\<^verbatim>\<open>node_create\<close> returns the new node, or 0 when an allocation fails. The name buffer
  is filled after the node is linked, as in the source.\<close>

definition node_create ::
  "sys \<Rightarrow> state \<Rightarrow> addr \<Rightarrow> string \<Rightarrow> u64 \<Rightarrow> u64 \<Rightarrow> (addr \<times> state) outcome" where
  "node_create y s par nm nid' gen' =
     (let node = sys_calloc y in
      if node = 0 then Inr (0, s)
      else if sys_malloc y = 0 then Inr (0, s)
      else
        let s1 = s\<lparr>nodes := (nodes s)(node \<mapsto> zero_node\<lparr>name := Some [], nid := nid', gen := gen'\<rparr>)\<rparr>
        in sbind (add_node_to_parent s1 node par) (\<lambda>s2.
           sbind (update_node s2 node
                    (\<lambda>n. n\<lparr>name := Some nm, namelen := of_nat (length nm)\<rparr>)) (\<lambda>s3.
           Inr (node, s3))))"

text \<open>\<^verbatim>\<open>rename_node\<close> returns whether the name was replaced; the length is overwritten
  before the reallocation is tried.\<close>

definition rename_node :: "sys \<Rightarrow> state \<Rightarrow> addr \<Rightarrow> string \<Rightarrow> (bool \<times> state) outcome" where
  "rename_node y s node nm =
     sbind (update_node s node (\<lambda>n. n\<lparr>namelen := of_nat (length nm)\<rparr>)) (\<lambda>s1.
     if sys_realloc y = 0 then Inr (False, s1)
     else sbind (update_node s1 node (\<lambda>n. n\<lparr>name := Some nm\<rparr>)) (\<lambda>s2. Inr (True, s2)))"

text \<open>\<^verbatim>\<open>fuse_init\<close> fills the \<^verbatim>\<open>struct fuse\<close> that \<open>s\<close> holds at \<open>root s\<close>; the result of
  \<^verbatim>\<open>rename_node\<close> is ignored.\<close>

definition fuse_init :: "sys \<Rightarrow> state \<Rightarrow> int \<Rightarrow> string \<Rightarrow> state outcome" where
  "fuse_init y s fd' path =
     (let s1 = s\<lparr>fd := fd', next_node_id := 2, next_generation := 0, all := root s\<rparr> in
      sbind (update_node s1 (root s1)
               (\<lambda>n. n\<lparr>nid := FUSE_ROOT_ID, next_sibling := 0, child := 0, parent := 0,
                       all_nodes := 0, refcount := 2, name := None\<rparr>)) (\<lambda>s2.
      sbind (rename_node y s2 (root s2) path) (\<lambda>(r, s3). Inr s3)))"

definition lookup_by_inode :: "state \<Rightarrow> u64 \<Rightarrow> addr" where
  "lookup_by_inode s nid' = (if nid' = FUSE_ROOT_ID then root s else nid')"

text \<open>The loop of \<^verbatim>\<open>lookup_child_by_name\<close>, from the node it has reached.\<close>

partial_function (option) child_by_name :: "state \<Rightarrow> string \<Rightarrow> addr \<Rightarrow> addr res" where
  "child_by_name s nm node =
     (if node = 0 then Some (Inr 0)
      else case nodes s node of
        None \<Rightarrow> Some (Inl (Bad_pointer, s))
      | Some n \<Rightarrow>
          (case name n of
             None \<Rightarrow> Some (Inl (Null_deref, s))
           | Some nm' \<Rightarrow> if nm = nm' then Some (Inr node) else child_by_name s nm (next_sibling n)))"

declare child_by_name.simps [code]

definition lookup_child_by_name :: "state \<Rightarrow> addr \<Rightarrow> string \<Rightarrow> addr res" where
  "lookup_child_by_name s node nm =
     rbind (Some (node_at s node)) (\<lambda>n. child_by_name s nm (child n))"

partial_function (option) child_by_inode :: "state \<Rightarrow> u64 \<Rightarrow> addr \<Rightarrow> addr res" where
  "child_by_inode s nid' node =
     (if node = 0 then Some (Inr 0)
      else case nodes s node of
        None \<Rightarrow> Some (Inl (Bad_pointer, s))
      | Some n \<Rightarrow> if nid n = nid' then Some (Inr node) else child_by_inode s nid' (next_sibling n))"

declare child_by_inode.simps [code]

definition lookup_child_by_inode :: "state \<Rightarrow> addr \<Rightarrow> u64 \<Rightarrow> addr res" where
  "lookup_child_by_inode s node nid' =
     rbind (Some (node_at s node)) (\<lambda>n. child_by_inode s nid' (child n))"

text \<open>The loop of \<^verbatim>\<open>remove_child\<close>, with \<open>prev\<close> and the node it has reached. It returns
  the detached node, or 0.\<close>

partial_function (option) remove_child_from ::
  "state \<Rightarrow> addr \<Rightarrow> u64 \<Rightarrow> addr \<Rightarrow> addr \<Rightarrow> (addr \<times> state) res" where
  "remove_child_from s par nid' prev node =
     (if node = 0 then Some (Inr (0, s))
      else case nodes s node of
        None \<Rightarrow> Some (Inl (Bad_pointer, s))
      | Some n \<Rightarrow>
          if nid n = nid' then
            Some (sbind (if prev \<noteq> 0
                         then update_node s prev (\<lambda>p. p\<lparr>next_sibling := next_sibling n\<rparr>)
                         else update_node s par (\<lambda>p. p\<lparr>child := next_sibling n\<rparr>)) (\<lambda>s1.
                  sbind (update_node s1 node (\<lambda>n. n\<lparr>next_sibling := 0\<rparr>)) (\<lambda>s2.
                  sbind (update_node s2 node (\<lambda>n. n\<lparr>parent := 0\<rparr>)) (\<lambda>s3.
                  sbind (update_node s3 par dec_refcount) (\<lambda>s4.
                  Inr (node, s4))))))
          else remove_child_from s par nid' node (next_sibling n))"

declare remove_child_from.simps [code]

definition remove_child :: "state \<Rightarrow> addr \<Rightarrow> u64 \<Rightarrow> (addr \<times> state) res" where
  "remove_child s par nid' =
     rbind (Some (node_at s par)) (\<lambda>p. remove_child_from s par nid' 0 (child p))"


text \<open>The inner loop of \<^verbatim>\<open>node_release\<close>: the sibling whose \<^verbatim>\<open>next\<close> is \<open>node\<close>,
  searched from \<open>node2\<close>. The source does not test for the end of the list.\<close>

partial_function (option) sibling_before :: "state \<Rightarrow> addr \<Rightarrow> addr \<Rightarrow> addr res" where
  "sibling_before s node node2 =
     (if node2 = 0 then Some (Inl (Null_deref, s))
      else case nodes s node2 of
        None \<Rightarrow> Some (Inl (Bad_pointer, s))
      | Some n2 \<Rightarrow>
          if next_sibling n2 \<noteq> node then sibling_before s node (next_sibling n2)
          else Some (Inr node2))"

declare sibling_before.simps [code]

text \<open>The unlinking of a node whose count has reached zero, in \<^verbatim>\<open>node_release\<close>.\<close>

definition unlink_node :: "state \<Rightarrow> addr \<Rightarrow> state res" where
  "unlink_node s node =
     rbind (Some (node_at s node)) (\<lambda>n.
     rbind (Some (node_at s (parent n))) (\<lambda>p.
       if child p = node then
         rbind (Some (node_at s (child p))) (\<lambda>c.
           Some (update_node s (parent n) (\<lambda>p. p\<lparr>child := next_sibling c\<rparr>)))
       else
         rbind (sibling_before s node (child p)) (\<lambda>node2.
           Some (update_node s node2 (\<lambda>n2. n2\<lparr>next_sibling := next_sibling n\<rparr>)))))"

text \<open>
  The end of \<^verbatim>\<open>node_release\<close>: the name buffer (of the size of the name and its
  terminator) is overwritten on \<^verbatim>\<open>namelen\<close> bytes, then the name and the node are
  freed.
\<close>

definition free_node :: "state \<Rightarrow> addr \<Rightarrow> state outcome" where
  "free_node s node =
     sbind (node_at s node) (\<lambda>n.
       case name n of
         None \<Rightarrow>
           if namelen n = 0 then Inr (s\<lparr>nodes := (nodes s)(node := None)\<rparr>)
           else Inl (Null_deref, s)
       | Some nm \<Rightarrow>
           if unat (namelen n) \<le> length nm + 1
           then Inr (s\<lparr>nodes := (nodes s)(node := None)\<rparr>)
           else Inl (Bad_pointer, s))"

partial_function (option) node_release :: "state \<Rightarrow> addr \<Rightarrow> state res" where
  "node_release s node =
     (case update_node s node dec_refcount of
        Inl e \<Rightarrow> Some (Inl e)
      | Inr s1 \<Rightarrow>
          (case node_at s1 node of
             Inl e \<Rightarrow> Some (Inl e)
           | Inr n \<Rightarrow>
               if refcount n = 0 then
                 Option.bind (unlink_node s1 node) (\<lambda>r2.
                   case r2 of
                     Inl e \<Rightarrow> Some (Inl e)
                   | Inr s2 \<Rightarrow>
                       (case node_at s2 node of
                          Inl e \<Rightarrow> Some (Inl e)
                        | Inr n2 \<Rightarrow>
                            Option.bind (node_release s2 (parent n2)) (\<lambda>r3.
                              case r3 of
                                Inl e \<Rightarrow> Some (Inl e)
                              | Inr s3 \<Rightarrow>
                                  Some (sbind (update_node s3 node (\<lambda>n. n\<lparr>parent := 0\<rparr>)) (\<lambda>s4.
                                        sbind (update_node s4 node (\<lambda>n. n\<lparr>next_sibling := 0\<rparr>)) (\<lambda>s5.
                                        free_node s5 node))))))
               else Some (Inr s1)))"

declare node_release.simps [code]

text \<open>\<^verbatim>\<open>node_lookup\<close> returns the node (0 when the host has no such file or the node
  cannot be allocated) and the attributes it has filled in.\<close>

definition node_lookup ::
  "headers \<Rightarrow> sys \<Rightarrow> state \<Rightarrow> addr \<Rightarrow> string \<Rightarrow> fuse_attr \<Rightarrow> (addr \<times> fuse_attr \<times> state) res" where
  "node_lookup k y s par nm attr =
     rbind (Some (node_get_path s par (Some nm))) (\<lambda>path.
     case sys_lstat y path of
        Inl e \<Rightarrow> Some (Inr (0, attr, s\<lparr>errno := e\<rparr>))
      | Inr st \<Rightarrow>
          rbind (lookup_child_by_name s par nm) (\<lambda>found.
          rbind (if found \<noteq> 0 then Some (Inr (found, s))
                 else
                   (let s1 = s\<lparr>next_node_id := next_node_id s + 1,
                                next_generation := next_generation s + 1\<rparr> in
                    rbind (Some (node_create y s1 par nm (next_node_id s) (next_generation s)))
                      (\<lambda>(node, s2).
                        if node = 0 then Some (Inr (0, s2))
                        else
                          rbind (Some (update_node s2 node (\<lambda>n. n\<lparr>nid := node\<rparr>))) (\<lambda>s3.
                          rbind (Some (update_node s3 node (\<lambda>n. n\<lparr>all_nodes := all s3\<rparr>))) (\<lambda>s4.
                          Some (Inr (node, s4\<lparr>all := node\<rparr>)))))))
            (\<lambda>(node, s5).
              if node = 0 then Some (Inr (0, attr, s5))
              else
                rbind (Some (node_at s5 node)) (\<lambda>n.
                Some (Inr (node, (attr_from_stat k attr st)\<lparr>ino := nid n\<rparr>, s5))))))"

text \<open>\<^verbatim>\<open>node_get_attr\<close> returns 0 or -1 and the attributes.\<close>

definition node_get_attr ::
  "headers \<Rightarrow> sys \<Rightarrow> state \<Rightarrow> addr \<Rightarrow> fuse_attr \<Rightarrow> (int \<times> fuse_attr \<times> state) outcome" where
  "node_get_attr k y s node attr =
     sbind (node_get_path s node None) (\<lambda>path.
     case sys_lstat y path of
        Inl e \<Rightarrow> Inr (- 1, attr, s\<lparr>errno := e\<rparr>)
      | Inr st \<Rightarrow>
          sbind (node_at s node) (\<lambda>n. Inr (0, (attr_from_stat k attr st)\<lparr>ino := nid n\<rparr>, s)))"

section \<open>Replies\<close>

definition fuse_status :: "sys \<Rightarrow> state \<Rightarrow> u64 \<Rightarrow> int \<Rightarrow> state" where
  "fuse_status y s unique err =
     (case sys_write y of
        Some e \<Rightarrow> s\<lparr>errno := e\<rparr>
      | None \<Rightarrow> s\<lparr>sent := sent s @ [\<lparr>out_error = err, out_unique = unique, out_body = None\<rparr>]\<rparr>)"

definition fuse_reply :: "sys \<Rightarrow> state \<Rightarrow> u64 \<Rightarrow> body \<Rightarrow> state" where
  "fuse_reply y s unique data =
     (case sys_writev y of
        Some e \<Rightarrow> s\<lparr>errno := e\<rparr>
      | None \<Rightarrow> s\<lparr>sent := sent s @ [\<lparr>out_error = 0, out_unique = unique, out_body = Some data\<rparr>]\<rparr>)"

text \<open>The code at the label in the default case of \<^verbatim>\<open>handle_fuse_request\<close>, which
  writes a header with \<^verbatim>\<open>-ENOSYS\<close>.\<close>

definition not_implemented :: "sys \<Rightarrow> state \<Rightarrow> u64 \<Rightarrow> state" where
  "not_implemented y s unique =
     (case sys_write y of
        Some e \<Rightarrow> s\<lparr>errno := e\<rparr>
      | None \<Rightarrow> s\<lparr>sent := sent s @ [\<lparr>out_error = - ENOSYS, out_unique = unique, out_body = None\<rparr>]\<rparr>)"

definition lookup_entry :: "headers \<Rightarrow> sys \<Rightarrow> state \<Rightarrow> addr \<Rightarrow> string \<Rightarrow> u64 \<Rightarrow> state res" where
  "lookup_entry k y s node nm unique =
     rbind (node_lookup k y s node nm zero_attr) (\<lambda>(found, attr, s1).
       if found = 0 then Some (Inr (fuse_status y s1 unique (- ENOENT)))
       else
         rbind (Some (update_node s1 found (\<lambda>n. n\<lparr>refcount := refcount n + 1\<rparr>))) (\<lambda>s2.
         rbind (Some (node_at s2 found)) (\<lambda>n.
         Some (Inr (fuse_reply y s2 unique (Entry_out (nid n) (gen n) 10 10 attr))))))"


section \<open>The dispatcher\<close>

text \<open>
  A request is the opcode of the header together with the payload that the handler of
  that opcode reads from the buffer: a tagged union over \<^verbatim>\<open>enum fuse_opcode\<close>. An
  opcode without a case in the switch is \<open>FUSE_OTHER\<close>.
\<close>

datatype request =
    FUSE_LOOKUP string
  | FUSE_FORGET u64
  | FUSE_GETATTR
  | FUSE_SETATTR u32 u64
  | FUSE_MKNOD u32 u32 string
  | FUSE_MKDIR u32 string
  | FUSE_UNLINK string
  | FUSE_RMDIR string
  | FUSE_RENAME u64 string string
  | FUSE_OPEN u32
  | FUSE_READ u64 u32 u64
  | FUSE_WRITE u64 u32 u64 "8 word list"
  | FUSE_STATFS
  | FUSE_RELEASE u64
  | FUSE_FLUSH
  | FUSE_OPENDIR u32
  | FUSE_READDIR u64
  | FUSE_RELEASEDIR u64
  | FUSE_INIT u32
  | FUSE_OTHER u32

text \<open>The fields of \<^verbatim>\<open>struct fuse_in_header\<close> that the dispatcher reads besides the opcode.\<close>

record fuse_in_header =
  len :: u32
  unique :: u64
  nodeid :: u64

definition FUSE_UNKNOWN_INO :: u64 where "FUSE_UNKNOWN_INO = 0xffffffff"

text \<open>The loop of FORGET: \<^verbatim>\<open>while (req->nlookup--) node_release(node)\<close>.\<close>

fun forget :: "nat \<Rightarrow> state \<Rightarrow> addr \<Rightarrow> state res" where
  "forget 0 s node = Some (Inr s)"
| "forget (Suc n) s node = rbind (node_release s node) (\<lambda>s1. forget n s1 node)"

text \<open>The switch of \<^verbatim>\<open>handle_fuse_request\<close>, one equation for each case.\<close>

fun dispatch :: "headers \<Rightarrow> sys \<Rightarrow> state \<Rightarrow> fuse_in_header \<Rightarrow> addr \<Rightarrow> request \<Rightarrow> state res" where
  "dispatch k y s hdr node (FUSE_LOOKUP nm) = lookup_entry k y s node nm (unique hdr)"
| "dispatch k y s hdr node (FUSE_FORGET nlookup) = forget (unat nlookup) s node"
| "dispatch k y s hdr node FUSE_GETATTR =
     rbind (Some (node_get_attr k y s node zero_attr)) (\<lambda>(r, attr, s1).
     Some (Inr (fuse_reply y s1 (unique hdr) (Attr_out 10 attr))))"
| "dispatch k y s hdr node (FUSE_SETATTR valid sz) =
     rbind (Some (node_get_path s node None)) (\<lambda>path.
     (let (res, s1) = (if valid AND FATTR_SIZE k \<noteq> 0 then host y s (Truncate path sz)
                       else (0, s)) in
      rbind (Some (node_get_attr k y s1 node zero_attr)) (\<lambda>(r, attr, s2).
      if res \<noteq> 0 then Some (Inr (fuse_status y s2 (unique hdr) (- errno s2)))
      else Some (Inr (fuse_reply y s2 (unique hdr) (Attr_out 10 attr))))))"
| "dispatch k y s hdr node (FUSE_MKNOD md rdev nm) =
     rbind (Some (node_get_path s node (Some nm))) (\<lambda>path.
     (let (res, s1) = host y s (Mknod path ((md AND NOT 511) OR 436) rdev) in
      if res < 0 then Some (Inr (fuse_status y s1 (unique hdr) (- errno s1)))
      else lookup_entry k y s1 node nm (unique hdr)))"
| "dispatch k y s hdr node (FUSE_MKDIR md nm) =
     rbind (Some (node_get_path s node (Some nm))) (\<lambda>path.
     (let (res, s1) = host y s (Mkdir path ((md AND NOT 511) OR 509)) in
      if res < 0 then Some (Inr (fuse_status y s1 (unique hdr) (- errno s1)))
      else lookup_entry k y s1 node nm (unique hdr)))"
| "dispatch k y s hdr node (FUSE_UNLINK nm) =
     rbind (Some (node_get_path s node (Some nm))) (\<lambda>path.
     (let (res, s1) = host y s (Unlink path) in
      Some (Inr (fuse_status y s1 (unique hdr) (if res \<noteq> 0 then - errno s1 else 0)))))"
| "dispatch k y s hdr node (FUSE_RMDIR nm) =
     rbind (Some (node_get_path s node (Some nm))) (\<lambda>path.
     (let (res, s1) = host y s (Rmdir path) in
      Some (Inr (fuse_status y s1 (unique hdr) (if res \<noteq> 0 then - errno s1 else 0)))))"
| "dispatch k y s hdr node (FUSE_RENAME newdir oldname newname) =
     rbind (lookup_child_by_name s node oldname) (\<lambda>target.
     if target = 0 then Some (Inr (fuse_status y s (unique hdr) (- ENOENT)))
     else
       rbind (Some (node_get_path s node (Some oldname))) (\<lambda>oldpath.
       (let newparent = lookup_by_inode s newdir in
        if newparent = 0 then Some (Inr (fuse_status y s (unique hdr) (- ENOENT)))
        else
          rbind (Some (node_get_path s newparent (Some newname))) (\<lambda>newpath.
          rbind (Some (node_at s target)) (\<lambda>t.
          rbind (remove_child s node (nid t)) (\<lambda>(removed, s1).
          if removed = 0 then Some (Inr (fuse_status y s1 (unique hdr) (- ENOENT)))
          else
            rbind (Some (rename_node y s1 target newname)) (\<lambda>(renamed, s2).
            if \<not> renamed then Some (Inr (fuse_status y s2 (unique hdr) (- ENOMEM)))
            else
              rbind (Some (add_node_to_parent s2 target newparent)) (\<lambda>s3.
              (let (res, s4) = host y s3 (Rename oldpath newpath) in
               Some (Inr (fuse_status y s4 (unique hdr)
                            (if res \<noteq> 0 then - errno s4 else 0))))))))))))"
| "dispatch k y s hdr node (FUSE_OPEN flags) =
     (let h = sys_malloc y in
      if h = 0 then Some (Inr (fuse_status y s (unique hdr) (- ENOMEM)))
      else
        rbind (Some (node_get_path s node None)) (\<lambda>path.
        (let (hfd, s1) = host y s (Open path flags) in
         if hfd < 0 then Some (Inr (fuse_status y s1 (unique hdr) (errno s1)))
         else Some (Inr (fuse_reply y (s1\<lparr>handles := (handles s1)(h \<mapsto> hfd)\<rparr>) (unique hdr)
                           (Open_out h 0))))))"
| "dispatch k y s hdr node (FUSE_READ fh sz off) =
     (if sz > 128 * 1024 then Some (Inr (fuse_status y s (unique hdr) (- EINVAL)))
      else
        rbind (Some (handle_at s fh)) (\<lambda>hfd.
        case sys_pread64 y hfd sz off of
          Inl e \<Rightarrow> Some (Inr (fuse_status y (s\<lparr>errno := e\<rparr>) (unique hdr) e))
        | Inr bytes \<Rightarrow> Some (Inr (fuse_reply y s (unique hdr) (Read_out bytes)))))"
| "dispatch k y s hdr node (FUSE_WRITE fh sz off bytes) =
     rbind (Some (handle_at s fh)) (\<lambda>hfd.
     (let (res, s1) = host y s (Pwrite64 hfd bytes sz off) in
      if res < 0 then Some (Inr (fuse_status y s1 (unique hdr) (errno s1)))
      else
        (let s2 = fuse_reply y s1 (unique hdr) (Write_out (word_of_int res)) in
         Some (Inr (not_implemented y s2 (unique hdr))))))"
| "dispatch k y s hdr node FUSE_STATFS =
     rbind (Some (node_at s (root s))) (\<lambda>r.
     case sys_statfs y (name r) of
        Inl e \<Rightarrow> Some (Inr (fuse_status y (s\<lparr>errno := e\<rparr>) (unique hdr) (- e)))
      | Inr st \<Rightarrow>
          Some (Inr (fuse_reply y s (unique hdr)
                       (Statfs_out (f_blocks st) (f_bfree st) (f_bavail st) (f_files st)
                          (f_ffree st) (f_bsize st) (f_namelen st) (f_frsize st)))))"
| "dispatch k y s hdr node (FUSE_RELEASE fh) =
     rbind (Some (handle_at s fh)) (\<lambda>hfd.
     (let (r, s1) = host y s (Close hfd) in
      Some (Inr (fuse_status y (s1\<lparr>handles := (handles s1)(fh := None)\<rparr>) (unique hdr) 0))))"
| "dispatch k y s hdr node FUSE_FLUSH = Some (Inr (fuse_status y s (unique hdr) 0))"
| "dispatch k y s hdr node (FUSE_OPENDIR flags) =
     (let h = sys_malloc y in
      if h = 0 then Some (Inr (fuse_status y s (unique hdr) (- ENOMEM)))
      else
        rbind (Some (node_get_path s node None)) (\<lambda>path.
        case sys_opendir y path of
           Inl e \<Rightarrow> Some (Inr (fuse_status y (s\<lparr>errno := e\<rparr>) (unique hdr) (- e)))
         | Inr d \<Rightarrow>
             if d = 0 then Some (Inr (fuse_status y s (unique hdr) (- errno s)))
             else Some (Inr (fuse_reply y (s\<lparr>dirhandles := (dirhandles s)(h \<mapsto> d)\<rparr>)
                               (unique hdr) (Opendir_out h)))))"
| "dispatch k y s hdr node (FUSE_READDIR fh) =
     rbind (Some (dirhandle_at s fh)) (\<lambda>d.
     case sys_readdir y d of
       None \<Rightarrow> Some (Inr (fuse_status y s (unique hdr) 0))
     | Some de \<Rightarrow>
         Some (Inr (fuse_reply y s (unique hdr)
                      (Dirent_out FUSE_UNKNOWN_INO 0 (of_nat (length (d_name de))) (d_type de)
                         (d_name de)))))"
| "dispatch k y s hdr node (FUSE_RELEASEDIR fh) =
     rbind (Some (dirhandle_at s fh)) (\<lambda>d.
     (let (r, s1) = host y s (Closedir d) in
      Some (Inr (fuse_status y (s1\<lparr>dirhandles := (dirhandles s1)(fh := None)\<rparr>) (unique hdr) 0))))"
| "dispatch k y s hdr node (FUSE_INIT max_readahead) =
     Some (Inr (fuse_reply y s (unique hdr)
                  (Init_out (FUSE_KERNEL_VERSION k) (FUSE_KERNEL_MINOR_VERSION k) max_readahead
                     (FUSE_ATOMIC_O_TRUNC k) 32 32 (256 * 1024))))"
| "dispatch k y s hdr node (FUSE_OTHER opc) = Some (Inr (not_implemented y s (unique hdr)))"

text \<open>\<^verbatim>\<open>handle_fuse_request\<close>; \<open>n\<close> is its parameter \<^verbatim>\<open>len\<close>, the number of bytes read.\<close>

definition handle_fuse_request ::
  "headers \<Rightarrow> sys \<Rightarrow> state \<Rightarrow> fuse_in_header \<Rightarrow> request \<Rightarrow> u32 \<Rightarrow> state res" where
  "handle_fuse_request k y s hdr req n =
     (if n < sizeof_fuse_in_header k \<or> len hdr \<noteq> n then Some (Inr s)
      else if nodeid hdr \<noteq> 0 then
        (let node = lookup_by_inode s (nodeid hdr) in
         if node = 0 then Some (Inr (fuse_status y s (unique hdr) (- ENOENT)))
         else dispatch k y s hdr node req)
      else dispatch k y s hdr 0 req)"

text \<open>
  One \<^verbatim>\<open>read\<close> on the channel: its return value, the \<^verbatim>\<open>errno\<close> it leaves when it
  fails, the message it has put in the buffer, and what the environment answers while
  that message is handled.
\<close>

datatype incoming =
  Incoming (in_len: int) (in_errno: int) (in_hdr: fuse_in_header) (in_req: request) (in_sys: sys)

text \<open>
  \<^verbatim>\<open>handle_fuse_requests\<close> on the reads the channel delivers. The loop has returned
  (\<open>Returned\<close>), or it has handled every read so far and is in \<^verbatim>\<open>read\<close> again
  (\<open>Reading\<close>).
\<close>

datatype run = Returned state | Reading state

fun handle_fuse_requests :: "headers \<Rightarrow> incoming list \<Rightarrow> state \<Rightarrow> run res" where
  "handle_fuse_requests k [] s = Some (Inr (Reading s))"
| "handle_fuse_requests k (i # rest) s =
     (if in_len i < 0 then
        (if in_errno i = EINTR then handle_fuse_requests k rest (s\<lparr>errno := in_errno i\<rparr>)
         else Some (Inr (Returned (s\<lparr>errno := in_errno i\<rparr>))))
      else
        rbind (handle_fuse_request k (in_sys i) s (in_hdr i) (in_req i) (word_of_int (in_len i)))
          (\<lambda>s1. handle_fuse_requests k rest s1))"


section \<open>The references held on the root\<close>

text \<open>\<open>chain h a cs\<close>: the sibling list that starts at \<open>a\<close> consists of the nodes \<open>cs\<close>, in
  this order, and ends with the null pointer.\<close>

fun chain :: "(addr \<rightharpoonup> node) \<Rightarrow> addr \<Rightarrow> addr list \<Rightarrow> bool" where
  "chain h a [] = (a = 0)"
| "chain h a (c # cs) =
     (a = c \<and> a \<noteq> 0 \<and> (case h c of None \<Rightarrow> False | Some n \<Rightarrow> chain h (next_sibling n) cs))"

text \<open>
  \<open>root_holds s cs j\<close>: the root is allocated, its children are the distinct nodes \<open>cs\<close>,
  each with the root as its parent, and its count is one for each child and \<open>j\<close> more.
  \<^verbatim>\<open>fuse_init\<close> leaves no children and a count of 2.
\<close>

definition root_holds :: "state \<Rightarrow> addr list \<Rightarrow> nat \<Rightarrow> bool" where
  "root_holds s cs j =
     (root s \<noteq> 0 \<and> root s \<notin> set cs \<and> distinct cs \<and>
      (case nodes s (root s) of
         None \<Rightarrow> False
       | Some r \<Rightarrow> chain (nodes s) (child r) cs \<and> unat (refcount r) = j + length cs) \<and>
      list_all (\<lambda>c. case nodes s c of None \<Rightarrow> False | Some n \<Rightarrow> parent n = root s) cs)"

text \<open>The root is allocated and its count is not zero.\<close>

definition root_alive :: "state \<Rightarrow> bool" where
  "root_alive s = (case nodes s (root s) of None \<Rightarrow> False | Some r \<Rightarrow> refcount r \<noteq> 0)"

text \<open>How many references on the root a list of reads asks to forget: the sum of
  \<^verbatim>\<open>nlookup\<close> over the FORGET requests whose node is the root.\<close>

fun root_forgets :: "state \<Rightarrow> incoming list \<Rightarrow> nat" where
  "root_forgets s [] = 0"
| "root_forgets s (i # rest) =
     (case in_req i of
        FUSE_FORGET c \<Rightarrow>
          (if lookup_by_inode s (nodeid (in_hdr i)) = root s then unat c else 0)
      | _ \<Rightarrow> 0) + root_forgets s rest"

text \<open>Whether a request is a FORGET.\<close>

fun is_forget :: "request \<Rightarrow> bool" where
  "is_forget (FUSE_FORGET c) = True"
| "is_forget _ = False"

section \<open>A concrete session\<close>

text \<open>
  The values of Android's headers, an environment in which every call succeeds (the host
  object is a regular file of mode 0644 and size 5; \<^verbatim>\<open>calloc\<close> answers \<open>0x1000\<close>), the
  memory of the process when \<^verbatim>\<open>main\<close> calls \<^verbatim>\<open>fuse_init\<close> (the \<^verbatim>\<open>struct fuse\<close> at
  \<open>0x7000\<close>, nothing allocated), and the state that \<^verbatim>\<open>fuse_init\<close> leaves.
\<close>

definition example_headers :: headers where
  "example_headers = \<lparr>AID_SDCARD_RW = 1015, FUSE_KERNEL_VERSION = 7,
     FUSE_KERNEL_MINOR_VERSION = 13, FUSE_ATOMIC_O_TRUNC = 8, FATTR_SIZE = 8,
     sizeof_fuse_in_header = 40\<rparr>"

definition hello_stat :: stat where
  "hello_stat = \<lparr>st_ino = 77, st_size = 5, st_blocks = 8, st_atime = 0, st_mtime = 0,
     st_ctime = 0, st_atime_nsec = 0, st_mtime_nsec = 0, st_ctime_nsec = 0,
     st_mode = 0x81A4, st_nlink = 1\<rparr>"

definition hello_attr :: "u64 \<Rightarrow> fuse_attr" where
  "hello_attr i = \<lparr>ino = i, fsize = 5, blocks = 8, atime = 0, mtime = 0, ctime = 0,
     atimensec = 0, mtimensec = 0, ctimensec = 0, mode = 0x81B4, nlink = 1, uid = 0,
     gid = 1015\<rparr>"

definition quiet_sys :: sys where
  "quiet_sys = \<lparr>sys_lstat = (\<lambda>path. Inr hello_stat), sys_calloc = 0x1000,
     sys_malloc = 0x2000, sys_realloc = 0x3000,
     sys_call = (\<lambda>c. case c of Open path fl \<Rightarrow> Inr 5
                       | Pwrite64 f bs sz off \<Rightarrow> Inr (int (length bs))
                       | _ \<Rightarrow> Inr 0),
     sys_pread64 = (\<lambda>f sz off. Inr []),
     sys_statfs = (\<lambda>path. Inl 5), sys_opendir = (\<lambda>path. Inl 2),
     sys_readdir = (\<lambda>d. None),
     sys_write = None, sys_writev = None\<rparr>"

definition boot :: state where
  "boot = \<lparr>next_generation = 0, next_node_id = 0, fd = 0, all = 0, root = 0x7000,
     nodes = [0x7000 \<mapsto> zero_node], handles = Map.empty, dirhandles = Map.empty,
     errno = 0, sent = [], force_lower_case = False\<rparr>"

definition fresh :: state where
  "fresh = \<lparr>next_generation = 0, next_node_id = 2, fd = 3, all = 0x7000, root = 0x7000,
     nodes = [0x7000 \<mapsto> \<lparr>nid = 1, gen = 0, next_sibling = 0, child = 0, all_nodes = 0,
        parent = 0, refcount = 2, namelen = 11, name = Some ''/data/media''\<rparr>],
     handles = Map.empty, dirhandles = Map.empty, errno = 0, sent = [],
     force_lower_case = False\<rparr>"

text \<open>The session after a first LOOKUP of \<open>hello\<close> under the root.\<close>

definition hello_session :: state where
  "hello_session = \<lparr>next_generation = 1, next_node_id = 3, fd = 3, all = 0x1000, root = 0x7000,
     nodes = [0x7000 \<mapsto> \<lparr>nid = 1, gen = 0, next_sibling = 0, child = 0x1000, all_nodes = 0,
                 parent = 0, refcount = 3, namelen = 11, name = Some ''/data/media''\<rparr>,
              0x1000 \<mapsto> \<lparr>nid = 0x1000, gen = 0, next_sibling = 0, child = 0,
                 all_nodes = 0x7000, parent = 0x7000, refcount = 1, namelen = 5,
                 name = Some ''hello''\<rparr>],
     handles = Map.empty, dirhandles = Map.empty, errno = 0,
     sent = [\<lparr>out_error = 0, out_unique = 1,
              out_body = Some (Entry_out 0x1000 0 10 10 (hello_attr 0x1000))\<rparr>],
     force_lower_case = False\<rparr>"

text \<open>The session after a LOOKUP of \<open>b\<close> under the root has followed, for which \<^verbatim>\<open>calloc\<close>
  has answered \<open>0x1100\<close>: the new node is the first child, \<open>hello\<close> the second.\<close>

definition siblings_session :: state where
  "siblings_session = \<lparr>next_generation = 2, next_node_id = 4, fd = 3, all = 0x1100,
     root = 0x7000,
     nodes = [0x7000 \<mapsto> \<lparr>nid = 1, gen = 0, next_sibling = 0, child = 0x1100, all_nodes = 0,
                 parent = 0, refcount = 4, namelen = 11, name = Some ''/data/media''\<rparr>,
              0x1000 \<mapsto> \<lparr>nid = 0x1000, gen = 0, next_sibling = 0, child = 0,
                 all_nodes = 0x7000, parent = 0x7000, refcount = 1, namelen = 5,
                 name = Some ''hello''\<rparr>,
              0x1100 \<mapsto> \<lparr>nid = 0x1100, gen = 1, next_sibling = 0x1000, child = 0,
                 all_nodes = 0x1000, parent = 0x7000, refcount = 1, namelen = 1,
                 name = Some ''b''\<rparr>],
     handles = Map.empty, dirhandles = Map.empty, errno = 0,
     sent = [\<lparr>out_error = 0, out_unique = 1,
              out_body = Some (Entry_out 0x1000 0 10 10 (hello_attr 0x1000))\<rparr>,
             \<lparr>out_error = 0, out_unique = 2,
              out_body = Some (Entry_out 0x1100 1 10 10 (hello_attr 0x1100))\<rparr>],
     force_lower_case = False\<rparr>"

text \<open>What a run has left: its state, the nodes, and the messages on the channel.\<close>

definition run_state :: "run res \<Rightarrow> state option" where
  "run_state r =
     (case r of
        Some (Inr (Reading s)) \<Rightarrow> Some s
      | Some (Inr (Returned s)) \<Rightarrow> Some s
      | _ \<Rightarrow> None)"

text \<open>The state in which a run stands: where the loop is, or where the fault was raised.\<close>

definition final_state :: "run res \<Rightarrow> state option" where
  "final_state r =
     (case r of
        None \<Rightarrow> None
      | Some (Inl (e, s)) \<Rightarrow> Some s
      | Some (Inr (Reading s)) \<Rightarrow> Some s
      | Some (Inr (Returned s)) \<Rightarrow> Some s)"

definition run_nodes :: "run res \<Rightarrow> addr \<rightharpoonup> node" where
  "run_nodes r = (case run_state r of Some s \<Rightarrow> nodes s | None \<Rightarrow> Map.empty)"

definition run_sent :: "run res \<Rightarrow> out_msg list option" where
  "run_sent r = map_option sent (run_state r)"

section \<open>Properties\<close>

lemmas heap_defs = update_node_def node_at_def sbind_def rbind_def

lemmas run_defs = handle_fuse_request_def lookup_by_inode_def FUSE_ROOT_ID_def
  lookup_entry_def node_lookup_def lookup_child_by_name_def child_by_name.simps
  node_create_def add_node_to_parent_def heap_defs fuse_reply_def fuse_status_def
  zero_node_def attr_from_stat_def zero_attr_def Let_def node_release.simps unlink_node_def
  sibling_before.simps dec_refcount_def ENOENT_def ENOMEM_def ENOSYS_def EINVAL_def
  EINTR_def not_implemented_def host_def handle_at_def remove_child_def
  remove_child_from.simps rename_node_def free_node_def node_get_path_def
  path_from.simps copy_name_def normalize_name_def PATH_BUFFER_SIZE_def
  example_headers_def quiet_sys_def hello_stat_def hello_attr_def fresh_def
  run_state_def run_nodes_def run_sent_def


lemma lookup_hello:
  "handle_fuse_requests example_headers
     [Incoming 46 0 \<lparr>len = 46, unique = 1, nodeid = 1\<rparr> (FUSE_LOOKUP ''hello'') quiet_sys] fresh
   = Some (Inr (Reading hello_session))"
  by (simp add: run_defs hello_session_def)

lemma lookup_b:
  "handle_fuse_requests example_headers
     [Incoming 42 0 \<lparr>len = 42, unique = 2, nodeid = 1\<rparr> (FUSE_LOOKUP ''b'')
        (quiet_sys\<lparr>sys_calloc := 0x1100\<rparr>)] hello_session
   = Some (Inr (Reading siblings_session))"
  by (simp add: run_defs hello_session_def siblings_session_def fun_eq_iff)


lemma forget_2: "forget 2 s n = rbind (node_release s n) (\<lambda>s1. forget 1 s1 n)"
  by (simp add: numeral_2_eq_2)

subsection \<open>Results of the sequencing operators and of the store\<close>

lemma sbindE:
  assumes "sbind m f = Inr y"
  obtains x where "m = Inr x" "f x = Inr y"
  using assms by (cases m) (simp_all add: sbind_def)

lemma sbind_InlE:
  assumes "sbind m f = Inl e"
  obtains "m = Inl e" | x where "m = Inr x" "f x = Inl e"
  using assms by (cases m) (simp_all add: sbind_def)

lemma rbindE:
  assumes "rbind m f = Some (Inr y)"
  obtains x where "m = Some (Inr x)" "f x = Some (Inr y)"
  using assms by (cases m) (auto simp add: rbind_def split: sum.splits)

lemma rbind_cases:
  assumes "rbind m f = Some res"
  obtains x where "m = Some (Inl x)" "res = Inl x"
  | y where "m = Some (Inr y)" "f y = Some res"
proof (cases m)
  case None
  with assms show ?thesis by (simp add: rbind_def)
next
  case (Some r)
  with assms that show ?thesis by (cases r) (simp_all add: rbind_def)
qed

lemma node_atE:
  assumes "node_at s p = Inr n"
  obtains "p \<noteq> 0" "nodes s p = Some n"
  using assms by (auto simp add: node_at_def split: if_splits option.splits)

lemma update_nodeE:
  assumes "update_node s p f = Inr s'"
  obtains n where "p \<noteq> 0" "nodes s p = Some n" "s' = s\<lparr>nodes := (nodes s)(p \<mapsto> f n)\<rparr>"
  using assms
  by (auto simp add: update_node_def node_at_def sbind_def split: if_splits option.splits)

lemma free_nodeE:
  assumes "free_node s n = Inr s'"
  obtains "s' = s\<lparr>nodes := (nodes s)(n := None)\<rparr>"
  using assms
  by (auto simp add: free_node_def elim!: sbindE split: option.splits if_splits)

lemma node_at_fault: "node_at s p = Inl (e, sf) \<Longrightarrow> sf = s"
  by (auto simp add: node_at_def split: if_splits option.splits)

lemma update_node_fault: "update_node s p f = Inl (e, sf) \<Longrightarrow> sf = s"
  by (auto simp add: update_node_def elim!: sbind_InlE dest: node_at_fault)

lemma free_node_fault: "free_node s p = Inl (e, sf) \<Longrightarrow> sf = s"
  by (auto simp add: free_node_def elim!: sbind_InlE dest: node_at_fault
      split: option.splits if_splits)






subsection \<open>The path builder\<close>




lemma copy_name_fault: "copy_name s nm l = Inl (e, sf) \<Longrightarrow> sf = s"
  by (auto simp add: copy_name_def split: if_splits option.splits)

lemma path_from_fault: "path_from s nm l node room acc = Inl (e, sf) \<Longrightarrow> sf = s"
proof (induction s nm l node room acc rule: path_from.induct)
  case (1 s nm l node room acc)
  from "1.prems" have run: "(if l = 2147483647 then Inl (Signed_overflow, s)
      else if l + 1 > int room then Inr None
      else
        (case copy_name s nm l of
           Inl e \<Rightarrow> Inl e
         | Inr b \<Rightarrow>
             if node = 0 then Inr (Some (CHR ''/'' # b @ acc))
             else
               (case nodes s node of
                  None \<Rightarrow> Inl (Bad_pointer, s)
                | Some n \<Rightarrow>
                    path_from s (name n) (sint (namelen n)) (parent n) (room - nat l - 1)
                      (CHR ''/'' # b @ acc)))) = Inl (e, sf)"
    by (simp only: path_from.simps [of s nm l node room acc])
  show ?case
  proof (cases "l = 2147483647 \<or> l + 1 > int room")
    case True
    with run show ?thesis by (auto split: if_splits)
  next
    case False
    show ?thesis
    proof (cases "copy_name s nm l")
      case (Inl x)
      with False run show ?thesis by (auto dest: copy_name_fault)
    next
      case (Inr b)
      show ?thesis
      proof (cases "node = 0")
        case True
        with False Inr run show ?thesis by simp
      next
        case nz: False
        show ?thesis
        proof (cases "nodes s node")
          case None
          with False Inr nz run show ?thesis by simp
        next
          case (Some n)
          with False Inr nz run
          have "path_from s (name n) (sint (namelen n)) (parent n) (room - nat l - 1)
                  (CHR ''/'' # b @ acc) = Inl (e, sf)"
            by simp
          with "1.IH" [of b n] False Inr nz Some show ?thesis by simp
        qed
      qed
    qed
  qed
qed

lemma node_get_path_fault: "node_get_path s node nm = Inl (e, sf) \<Longrightarrow> sf = s"
  by (auto simp add: node_get_path_def elim!: sbind_InlE split: option.splits if_splits
      dest: path_from_fault node_at_fault)

subsection \<open>The attribute mapper\<close>

lemma perm_bits_775: "((m::u32) AND - 512 OR 509) AND 511 = 509"
  by (simp add: word_bw_assocs word_ao_dist)

lemma perm_bits_664: "((m::u32) AND - 512 OR 436) AND 511 = 436"
  by (simp add: word_bw_assocs word_ao_dist)

lemma high_bits_775: "((m::u32) AND - 512 OR 509) AND - 512 = m AND - 512"
  by (simp add: word_bw_assocs word_ao_dist)

lemma high_bits_664: "((m::u32) AND - 512 OR 436) AND - 512 = m AND - 512"
  by (simp add: word_bw_assocs word_ao_dist)

text \<open>
  C8: for every host stat record, the mode that \<^verbatim>\<open>attr_from_stat\<close> produces has the low
  nine bits 0775 (509) when the bit 0100 (64) of the host mode is set and 0664 (436)
  otherwise, and the bits above them are those of the host mode; uid is 0 and gid is
  \<^verbatim>\<open>AID_SDCARD_RW\<close>. Host mode 0600 (384) gives 0664 and host mode 0700 (448) gives 0775.
\<close>

theorem attr_from_stat_policy:
  "mode (attr_from_stat k a s) AND 511 = (if st_mode s AND 64 \<noteq> 0 then 509 else 436)
   \<and> mode (attr_from_stat k a s) AND NOT 511 = st_mode s AND NOT 511
   \<and> uid (attr_from_stat k a s) = 0
   \<and> gid (attr_from_stat k a s) = AID_SDCARD_RW k
   \<and> mode (attr_from_stat k a (s\<lparr>st_mode := 384\<rparr>)) = 436
   \<and> mode (attr_from_stat k a (s\<lparr>st_mode := 448\<rparr>)) = 509"
  by (simp add: attr_from_stat_def Let_def perm_bits_775 perm_bits_664 high_bits_775
        high_bits_664)

subsection \<open>Reference counts\<close>

text \<open>
  C10: \<^verbatim>\<open>dec_refcount\<close> sets the count to the maximum of the old count minus one and
  zero; on a count of zero it leaves zero, so the 32-bit counter never wraps around.
\<close>

theorem dec_refcount_guarded:
  "uint (refcount (dec_refcount n)) = max (uint (refcount n) - 1) 0
   \<and> refcount (dec_refcount (n\<lparr>refcount := 0\<rparr>)) = 0"
proof (cases "refcount n = 0")
  case True
  then show ?thesis by (simp add: dec_refcount_def)
next
  case False
  then have pos: "0 < refcount n" by (simp add: word_greater_zero_iff)
  then have "0 < uint (refcount n)" by (simp add: word_less_def)
  then have "uint (refcount n - 1) = uint (refcount n) - 1
      \<and> max (uint (refcount n) - 1) 0 = uint (refcount n) - 1"
    by (simp add: uint_sub_if' max_def)
  with pos show ?thesis by (simp add: dec_refcount_def)
qed

subsection \<open>LOOKUP\<close>

text \<open>
  C1: a LOOKUP whose reply cannot be written must leave the count of the node as it was.
  The code does not do so. In the concrete session, a first LOOKUP of \<open>hello\<close> is answered
  and leaves the count of the new node at 1; a second LOOKUP of the same name, whose
  \<^verbatim>\<open>writev\<close> fails (19, \<^verbatim>\<open>ENODEV\<close>), puts nothing on the channel and leaves the count
  at 2: \<^verbatim>\<open>fuse_reply\<close> only reports the failure, and \<^verbatim>\<open>lookup_entry\<close> has incremented
  the count before.
\<close>

theorem lookup_reply_failure_not_rolled_back:
  "run_sent (handle_fuse_requests example_headers
     [Incoming 46 0 \<lparr>len = 46, unique = 1, nodeid = 1\<rparr> (FUSE_LOOKUP ''hello'') quiet_sys,
      Incoming 46 0 \<lparr>len = 46, unique = 2, nodeid = 1\<rparr> (FUSE_LOOKUP ''hello'')
        (quiet_sys\<lparr>sys_writev := Some 19\<rparr>)] fresh)
   = Some [\<lparr>out_error = 0, out_unique = 1,
            out_body = Some (Entry_out 0x1000 0 10 10 (hello_attr 0x1000))\<rparr>]
   \<and> map_option refcount (run_nodes (handle_fuse_requests example_headers
     [Incoming 46 0 \<lparr>len = 46, unique = 1, nodeid = 1\<rparr> (FUSE_LOOKUP ''hello'') quiet_sys]
     fresh) 0x1000) = Some 1
   \<and> map_option refcount (run_nodes (handle_fuse_requests example_headers
     [Incoming 46 0 \<lparr>len = 46, unique = 1, nodeid = 1\<rparr> (FUSE_LOOKUP ''hello'') quiet_sys,
      Incoming 46 0 \<lparr>len = 46, unique = 2, nodeid = 1\<rparr> (FUSE_LOOKUP ''hello'')
        (quiet_sys\<lparr>sys_writev := Some 19\<rparr>)] fresh) 0x1000) = Some 2"
  by (simp add: run_defs)



text \<open>When the reallocation in \<^verbatim>\<open>fuse_init\<close> fails, the root has a length but no name,
  and the first LOOKUP ends in \<^verbatim>\<open>node_get_path\<close>, which copies from the null pointer.\<close>

lemma lookup_without_root_name:
  "rbind (Some (fuse_init (quiet_sys\<lparr>sys_realloc := 0\<rparr>) boot 3 ''/data/media''))
     (handle_fuse_requests example_headers
        [Incoming 46 0 \<lparr>len = 46, unique = 1, nodeid = 1\<rparr> (FUSE_LOOKUP ''hello'') quiet_sys])
   = Some (Inl (Null_deref,
       fresh\<lparr>nodes := [0x7000 \<mapsto> \<lparr>nid = 1, gen = 0, next_sibling = 0, child = 0,
         all_nodes = 0, parent = 0, refcount = 2, namelen = 11, name = None\<rparr>]\<rparr>))"
  by (simp add: fuse_init_def boot_def run_defs)














lemma free_node_counters:
  "free_node s n = Inr s' \<Longrightarrow>
     next_node_id s' = next_node_id s \<and> next_generation s' = next_generation s"
  by (auto elim!: free_nodeE)










subsection \<open>RENAME\<close>

text \<open>
  C3: a RENAME that fails for lack of memory must leave no dangling node. The code leaves
  one. In the concrete session, after a LOOKUP of \<open>a\<close> the node \<open>0x1000\<close> is the child of
  the root. A RENAME of \<open>a\<close> to \<open>b\<close> in which \<^verbatim>\<open>realloc\<close> fails is answered
  \<^verbatim>\<open>-ENOMEM\<close>, and afterwards the node is still allocated but has no parent and is in no
  child list: \<^verbatim>\<open>remove_child\<close> has detached it, and the handler returns before
  \<^verbatim>\<open>add_node_to_parent\<close>.
\<close>

theorem rename_enomem_leaves_node_detached:
  "run_sent (handle_fuse_requests example_headers
     [Incoming 42 0 \<lparr>len = 42, unique = 1, nodeid = 1\<rparr> (FUSE_LOOKUP ''a'') quiet_sys,
      Incoming 52 0 \<lparr>len = 52, unique = 2, nodeid = 1\<rparr> (FUSE_RENAME 1 ''a'' ''b'')
        (quiet_sys\<lparr>sys_realloc := 0\<rparr>)] fresh)
   = Some [\<lparr>out_error = 0, out_unique = 1,
            out_body = Some (Entry_out 0x1000 0 10 10 (hello_attr 0x1000))\<rparr>,
           \<lparr>out_error = - ENOMEM, out_unique = 2, out_body = None\<rparr>]
   \<and> run_nodes (handle_fuse_requests example_headers
     [Incoming 42 0 \<lparr>len = 42, unique = 1, nodeid = 1\<rparr> (FUSE_LOOKUP ''a'') quiet_sys] fresh)
     = [0x7000 \<mapsto> \<lparr>nid = 1, gen = 0, next_sibling = 0, child = 0x1000, all_nodes = 0,
                    parent = 0, refcount = 3, namelen = 11, name = Some ''/data/media''\<rparr>,
        0x1000 \<mapsto> \<lparr>nid = 0x1000, gen = 0, next_sibling = 0, child = 0, all_nodes = 0x7000,
                    parent = 0x7000, refcount = 1, namelen = 1, name = Some ''a''\<rparr>]
   \<and> run_nodes (handle_fuse_requests example_headers
     [Incoming 42 0 \<lparr>len = 42, unique = 1, nodeid = 1\<rparr> (FUSE_LOOKUP ''a'') quiet_sys,
      Incoming 52 0 \<lparr>len = 52, unique = 2, nodeid = 1\<rparr> (FUSE_RENAME 1 ''a'' ''b'')
        (quiet_sys\<lparr>sys_realloc := 0\<rparr>)] fresh)
     = [0x7000 \<mapsto> \<lparr>nid = 1, gen = 0, next_sibling = 0, child = 0, all_nodes = 0,
                    parent = 0, refcount = 2, namelen = 11, name = Some ''/data/media''\<rparr>,
        0x1000 \<mapsto> \<lparr>nid = 0x1000, gen = 0, next_sibling = 0, child = 0, all_nodes = 0x7000,
                    parent = 0, refcount = 1, namelen = 1, name = Some ''a''\<rparr>]"
  by (simp add: run_defs)

subsection \<open>Replies\<close>

text \<open>
  C4: every request must get exactly one reply. WRITE gets two. In the concrete session,
  after an OPEN, a WRITE of three bytes is answered with the count written and then,
  under the same \<^verbatim>\<open>unique\<close>, with a second header carrying \<^verbatim>\<open>-ENOSYS\<close>: the case
  ends in a jump to the label of the default case instead of \<^verbatim>\<open>return\<close>.
\<close>

theorem write_replies_twice:
  "run_sent (handle_fuse_requests example_headers
     [Incoming 48 0 \<lparr>len = 48, unique = 1, nodeid = 1\<rparr> (FUSE_OPEN 1) quiet_sys,
      Incoming 83 0 \<lparr>len = 83, unique = 2, nodeid = 1\<rparr>
        (FUSE_WRITE 0x2000 3 0 [104, 105, 10]) quiet_sys] fresh)
   = Some [\<lparr>out_error = 0, out_unique = 1, out_body = Some (Open_out 0x2000 0)\<rparr>,
           \<lparr>out_error = 0, out_unique = 2, out_body = Some (Write_out 3)\<rparr>,
           \<lparr>out_error = - ENOSYS, out_unique = 2, out_body = None\<rparr>]"
  by (simp add: run_defs)

text \<open>
  C5: a failing host call must be answered with the negated \<^verbatim>\<open>errno\<close>. OPEN, READ and
  WRITE answer \<^verbatim>\<open>errno\<close> itself. In the concrete session, an OPEN failing with 13
  (\<^verbatim>\<open>EACCES\<close>), a READ failing with 5 (\<^verbatim>\<open>EIO\<close>) and a WRITE failing with 28
  (\<^verbatim>\<open>ENOSPC\<close>) are answered 13, 5 and 28, while an UNLINK failing with 2
  (\<^verbatim>\<open>ENOENT\<close>) is answered -2, as the other handlers do.
\<close>

theorem open_read_write_positive_errno:
  "run_sent (handle_fuse_requests example_headers
     [Incoming 48 0 \<lparr>len = 48, unique = 1, nodeid = 1\<rparr> (FUSE_OPEN 1)
        (quiet_sys\<lparr>sys_call := (\<lambda>c. Inl 13)\<rparr>),
      Incoming 48 0 \<lparr>len = 48, unique = 2, nodeid = 1\<rparr> (FUSE_OPEN 1) quiet_sys,
      Incoming 80 0 \<lparr>len = 80, unique = 3, nodeid = 1\<rparr> (FUSE_READ 0x2000 3 0)
        (quiet_sys\<lparr>sys_pread64 := (\<lambda>f sz off. Inl 5)\<rparr>),
      Incoming 83 0 \<lparr>len = 83, unique = 4, nodeid = 1\<rparr> (FUSE_WRITE 0x2000 3 0 [104, 105, 10])
        (quiet_sys\<lparr>sys_call := (\<lambda>c. Inl 28)\<rparr>),
      Incoming 42 0 \<lparr>len = 42, unique = 5, nodeid = 1\<rparr> (FUSE_UNLINK ''a'')
        (quiet_sys\<lparr>sys_call := (\<lambda>c. Inl 2)\<rparr>)] fresh)
   = Some [\<lparr>out_error = 13, out_unique = 1, out_body = None\<rparr>,
           \<lparr>out_error = 0, out_unique = 2, out_body = Some (Open_out 0x2000 0)\<rparr>,
           \<lparr>out_error = 5, out_unique = 3, out_body = None\<rparr>,
           \<lparr>out_error = 28, out_unique = 4, out_body = None\<rparr>,
           \<lparr>out_error = - 2, out_unique = 5, out_body = None\<rparr>]"
  by (simp add: run_defs)

subsection \<open>Framing\<close>

text \<open>The loop has returned exactly when one of the reads it was given has failed with an
  error other than \<^verbatim>\<open>EINTR\<close>.\<close>

lemma loop_returns_iff:
  assumes "handle_fuse_requests k rs s = Some (Inr r)"
  shows "(\<exists>s'. r = Returned s') = (\<exists>i\<in>set rs. in_len i < 0 \<and> in_errno i \<noteq> EINTR)"
  using assms
proof (induction rs arbitrary: s)
  case Nil
  then show ?case by auto
next
  case (Cons i rs)
  show ?case
  proof (cases "in_len i < 0")
    case True
    show ?thesis
    proof (cases "in_errno i = EINTR")
      case False
      with True Cons.prems show ?thesis by auto
    next
      case eintr: True
      with True Cons.prems
      have "handle_fuse_requests k rs (s\<lparr>errno := in_errno i\<rparr>) = Some (Inr r)" by simp
      from Cons.IH [OF this] eintr show ?thesis by simp
    qed
  next
    case False
    with Cons.prems obtain s1 where "handle_fuse_requests k rs s1 = Some (Inr r)"
      by (auto elim!: rbindE)
    from Cons.IH [OF this] False show ?thesis by simp
  qed
qed

text \<open>
  C7, as the code has it: for every read of at most 8192 bytes (what the loop asks for)
  whose header declares a length smaller than the header size or larger than the scratch
  buffer (256 KiB + 128), \<^verbatim>\<open>handle_fuse_request\<close> writes no reply and changes nothing,
  and the loop does not end but goes on with the next read. The loop ends when a read
  fails with an error other than \<^verbatim>\<open>EINTR\<close>, and only then: a run of the loop over any
  reads has returned if and only if one of them has failed with such an error.
\<close>

theorem framing_error_skipped:
  "(0 \<le> in_len i \<and> in_len i \<le> 8192 \<and>
      (len (in_hdr i) < sizeof_fuse_in_header k \<or> 256 * 1024 + 128 < len (in_hdr i))
     \<longrightarrow> handle_fuse_request k (in_sys i) s (in_hdr i) (in_req i) (word_of_int (in_len i))
           = Some (Inr s)
         \<and> handle_fuse_requests k (i # rest) s = handle_fuse_requests k rest s)
   \<and> (in_len i < 0 \<and> in_errno i \<noteq> EINTR
     \<longrightarrow> handle_fuse_requests k (i # rest) s = Some (Inr (Returned (s\<lparr>errno := in_errno i\<rparr>))))
   \<and> (\<forall>rs s0 r. handle_fuse_requests k rs s0 = Some (Inr r) \<longrightarrow>
         (\<exists>s'. r = Returned s') = (\<exists>j\<in>set rs. in_len j < 0 \<and> in_errno j \<noteq> EINTR))"
proof (intro conjI impI allI)
  assume a: "0 \<le> in_len i \<and> in_len i \<le> 8192 \<and>
      (len (in_hdr i) < sizeof_fuse_in_header k \<or> 256 * 1024 + 128 < len (in_hdr i))"
  let ?n = "word_of_int (in_len i) :: u32"
  have n: "uint ?n = in_len i"
    using a by (simp add: uint_word_of_int take_bit_int_eq_self)
  have bad: "?n < sizeof_fuse_in_header k \<or> len (in_hdr i) \<noteq> ?n"
  proof (cases "len (in_hdr i) < sizeof_fuse_in_header k")
    case True
    then show ?thesis by auto
  next
    case False
    with a have "256 * 1024 + 128 < len (in_hdr i)" by simp
    then have "262272 < uint (len (in_hdr i))" by (simp add: word_less_def)
    with n a have "len (in_hdr i) \<noteq> ?n" by auto
    then show ?thesis by simp
  qed
  then show h: "handle_fuse_request k (in_sys i) s (in_hdr i) (in_req i) ?n = Some (Inr s)"
    by (auto simp add: handle_fuse_request_def)
  show "handle_fuse_requests k (i # rest) s = handle_fuse_requests k rest s"
    using a h by (simp add: rbind_def)
next
  assume "in_len i < 0 \<and> in_errno i \<noteq> EINTR"
  then show "handle_fuse_requests k (i # rest) s = Some (Inr (Returned (s\<lparr>errno := in_errno i\<rparr>)))"
    by simp
next
  fix rs s0 r
  assume "handle_fuse_requests k rs s0 = Some (Inr r)"
  then show "(\<exists>s'. r = Returned s') = (\<exists>j\<in>set rs. in_len j < 0 \<and> in_errno j \<noteq> EINTR)"
    by (rule loop_returns_iff)
qed

text \<open>The theorem at a message of eight bytes, at a read that fails with 5, and at the
  two reads one after the other: the loop is reading after the first and has returned
  after the second.\<close>

theorem framing_error_skipped_witness:
  "handle_fuse_request example_headers quiet_sys fresh \<lparr>len = 8, unique = 1, nodeid = 1\<rparr> FUSE_FLUSH 8
     = Some (Inr fresh)
   \<and> handle_fuse_requests example_headers
       [Incoming 8 0 \<lparr>len = 8, unique = 1, nodeid = 1\<rparr> FUSE_FLUSH quiet_sys] fresh
     = Some (Inr (Reading fresh))
   \<and> handle_fuse_requests example_headers
       [Incoming (- 1) 5 \<lparr>len = 8, unique = 1, nodeid = 1\<rparr> FUSE_FLUSH quiet_sys] fresh
     = Some (Inr (Returned (fresh\<lparr>errno := 5\<rparr>)))
   \<and> handle_fuse_requests example_headers
       [Incoming 8 0 \<lparr>len = 8, unique = 1, nodeid = 1\<rparr> FUSE_FLUSH quiet_sys,
        Incoming (- 1) 5 \<lparr>len = 8, unique = 1, nodeid = 1\<rparr> FUSE_FLUSH quiet_sys] fresh
     = Some (Inr (Returned (fresh\<lparr>errno := 5\<rparr>)))"
  using framing_error_skipped [of "Incoming 8 0 \<lparr>len = 8, unique = 1, nodeid = 1\<rparr> FUSE_FLUSH quiet_sys"
      example_headers fresh "[]"]
    framing_error_skipped [of "Incoming (- 1) 5 \<lparr>len = 8, unique = 1, nodeid = 1\<rparr> FUSE_FLUSH quiet_sys"
      example_headers fresh "[]"]
    framing_error_skipped [of "Incoming 8 0 \<lparr>len = 8, unique = 1, nodeid = 1\<rparr> FUSE_FLUSH quiet_sys"
      example_headers fresh
      "[Incoming (- 1) 5 \<lparr>len = 8, unique = 1, nodeid = 1\<rparr> FUSE_FLUSH quiet_sys]"]
  by (simp add: example_headers_def EINTR_def rbind_def)

text \<open>The claim as stated fails: after a message whose header declares eight bytes, the
  loop is still reading and answers the FLUSH that follows.\<close>

theorem framing_error_loop_goes_on:
  "handle_fuse_requests example_headers
     [Incoming 8 0 \<lparr>len = 8, unique = 1, nodeid = 1\<rparr> FUSE_FLUSH quiet_sys,
      Incoming 40 0 \<lparr>len = 40, unique = 2, nodeid = 1\<rparr> FUSE_FLUSH quiet_sys] fresh
   = Some (Inr (Reading (fresh\<lparr>sent := [\<lparr>out_error = 0, out_unique = 2, out_body = None\<rparr>]\<rparr>)))"
  by (simp add: run_defs)

subsection \<open>Child lists\<close>

lemma chain_cong:
  assumes "\<forall>c\<in>set cs. map_option next_sibling (h' c) = map_option next_sibling (h c)"
  shows "chain h' a cs = chain h a cs"
  using assms
proof (induction cs arbitrary: a)
  case Nil
  then show ?case by simp
next
  case (Cons c cs)
  from Cons.prems have c: "map_option next_sibling (h' c) = map_option next_sibling (h c)"
    and rest: "\<forall>c\<in>set cs. map_option next_sibling (h' c) = map_option next_sibling (h c)"
    by simp_all
  from c show ?case
    by (cases "h c"; cases "h' c") (simp_all add: Cons.IH [OF rest])
qed

lemma chain_next:
  assumes "chain h a cs" "m \<in> set cs" "h m = Some M"
  shows "next_sibling M = 0 \<or> next_sibling M \<in> set cs"
  using assms
proof (induction cs arbitrary: a)
  case Nil
  then show ?case by simp
next
  case (Cons c cs)
  show ?case
  proof (cases "m = c")
    case True
    with Cons.prems have "chain h (next_sibling M) cs" by simp
    then show ?thesis by (cases cs) auto
  next
    case False
    with Cons.prems obtain C where "h c = Some C" "chain h (next_sibling C) cs" "m \<in> set cs"
      by (auto split: option.splits)
    with Cons.IH Cons.prems(3) show ?thesis by auto
  qed
qed

lemma chain_head: "chain h a cs \<Longrightarrow> a \<noteq> 0 \<Longrightarrow> \<exists>cs'. cs = a # cs'"
  by (cases cs) auto

lemma chain_unlink:
  assumes "chain h a (us @ m # n # vs)" "distinct (us @ m # n # vs)"
    "h m = Some M" "h n = Some N"
  shows "chain (h(m \<mapsto> M\<lparr>next_sibling := next_sibling N\<rparr>)) a (us @ m # vs)"
proof -
  define h' where "h' = h(m \<mapsto> M\<lparr>next_sibling := next_sibling N\<rparr>)"
  have at_m: "h' m = Some (M\<lparr>next_sibling := next_sibling N\<rparr>)"
    and other: "\<And>c. c \<noteq> m \<Longrightarrow> h' c = h c"
    by (simp_all add: h'_def)
  have "chain h' a (us @ m # vs)"
    using assms(1,2)
  proof (induction us arbitrary: a)
    case Nil
    then have "chain h (next_sibling N) vs" and m: "a = m" "m \<noteq> 0" and "m \<notin> set vs"
      using assms(3,4) by auto
    then have "\<forall>c\<in>set vs. map_option next_sibling (h' c) = map_option next_sibling (h c)"
      using other by fastforce
    from chain_cong [OF this] \<open>chain h (next_sibling N) vs\<close>
    have "chain h' (next_sibling N) vs" by simp
    with m at_m show ?case by simp
  next
    case (Cons u us)
    then obtain U where u: "a = u" "u \<noteq> 0" "h u = Some U"
        "chain h (next_sibling U) (us @ m # n # vs)" "u \<noteq> m"
      by (auto split: option.splits)
    from Cons.prems(2) have "distinct (us @ m # n # vs)" by simp
    from Cons.IH [OF u(4) this] have "chain h' (next_sibling U) (us @ m # vs)" .
    with u other [of u] show ?case by simp
  qed
  then show ?thesis by (simp only: h'_def)
qed

lemma sibling_before_chain:
  assumes "chain (nodes s) c cs" "n \<noteq> 0" "c \<noteq> n"
    "sibling_before s n c = Some (Inr m)"
  shows "\<exists>us vs. cs = us @ m # n # vs"
  using assms
proof (induction cs arbitrary: c)
  case Nil
  then show ?case by (simp add: sibling_before.simps)
next
  case (Cons x cs)
  then obtain X where x: "c = x" "x \<noteq> 0" "nodes s x = Some X" "chain (nodes s) (next_sibling X) cs"
    by (auto split: option.splits)
  show ?case
  proof (cases "next_sibling X = n")
    case True
    with Cons.prems x have "m = x" by (simp add: sibling_before.simps)
    moreover from True x(4) Cons.prems(2) obtain vs where "cs = n # vs"
      using chain_head by blast
    ultimately show ?thesis by (intro exI [of _ "[]"] exI [of _ vs]) simp
  next
    case False
    with Cons.prems x have "sibling_before s n (next_sibling X) = Some (Inr m)"
      by (simp add: sibling_before.simps)
    from Cons.IH [OF x(4) Cons.prems(2) False this]
    obtain us vs where "cs = us @ m # n # vs" by blast
    then show ?thesis by (intro exI [of _ "x # us"] exI [of _ vs]) simp
  qed
qed

lemma sibling_before_result:
  assumes "sibling_before s n c = Some r"
  shows "\<forall>m. r = Inr m \<longrightarrow> (\<exists>M. m \<noteq> 0 \<and> nodes s m = Some M \<and> next_sibling M = n)"
  by (rule sibling_before.raw_induct
        [where P = "\<lambda>s n c r. \<forall>m. r = Inr m \<longrightarrow> (\<exists>M. m \<noteq> 0 \<and> nodes s m = Some M \<and> next_sibling M = n)",
         OF _ assms])
     (auto split: if_splits option.splits)

lemma sibling_before_next:
  "sibling_before s n c = Some (Inr m) \<Longrightarrow> \<exists>M. m \<noteq> 0 \<and> nodes s m = Some M \<and> next_sibling M = n"
  using sibling_before_result by blast

lemma unlink_nodeE:
  assumes "unlink_node s n = Some (Inr s2)"
  obtains N Q where "n \<noteq> 0" "nodes s n = Some N" "parent N \<noteq> 0" "nodes s (parent N) = Some Q"
    "child Q = n" "s2 = s\<lparr>nodes := (nodes s)(parent N \<mapsto> Q\<lparr>child := next_sibling N\<rparr>)\<rparr>"
  | N Q m M where "n \<noteq> 0" "nodes s n = Some N" "parent N \<noteq> 0" "nodes s (parent N) = Some Q"
    "child Q \<noteq> n" "sibling_before s n (child Q) = Some (Inr m)" "m \<noteq> 0" "nodes s m = Some M"
    "next_sibling M = n" "s2 = s\<lparr>nodes := (nodes s)(m \<mapsto> M\<lparr>next_sibling := next_sibling N\<rparr>)\<rparr>"
proof -
  from assms obtain N Q where N: "node_at s n = Inr N"
    and Q: "node_at s (parent N) = Inr Q"
    and r2: "(if child Q = n then
         rbind (Some (node_at s (child Q))) (\<lambda>c.
           Some (update_node s (parent N) (\<lambda>p. p\<lparr>child := next_sibling c\<rparr>)))
       else
         rbind (sibling_before s n (child Q)) (\<lambda>node2.
           Some (update_node s node2 (\<lambda>n2. n2\<lparr>next_sibling := next_sibling N\<rparr>)))) = Some (Inr s2)"
    unfolding unlink_node_def by (auto elim!: rbindE)
  from N have n: "n \<noteq> 0" "nodes s n = Some N" by (auto elim: node_atE)
  from Q have q: "parent N \<noteq> 0" "nodes s (parent N) = Some Q" by (auto elim: node_atE)
  show thesis
  proof (cases "child Q = n")
    case True
    with r2 n q have "s2 = s\<lparr>nodes := (nodes s)(parent N \<mapsto> Q\<lparr>child := next_sibling N\<rparr>)\<rparr>"
      by (auto simp add: heap_defs)
    with n q True show thesis by (rule that(1))
  next
    case False
    with r2 obtain m where m: "sibling_before s n (child Q) = Some (Inr m)"
      "update_node s m (\<lambda>n2. n2\<lparr>next_sibling := next_sibling N\<rparr>) = Inr s2"
      by (auto elim!: rbindE)
    from m(2) obtain M where M: "m \<noteq> 0" "nodes s m = Some M"
      "s2 = s\<lparr>nodes := (nodes s)(m \<mapsto> M\<lparr>next_sibling := next_sibling N\<rparr>)\<rparr>"
      by (rule update_nodeE)
    from sibling_before_next [OF m(1)] M(2) have "next_sibling M = n" by auto
    with n q False m(1) M show thesis by (intro that(2) [of N Q m M]) simp_all
  qed
qed

lemma unlink_parent:
  assumes "unlink_node s n = Some (Inr s2)"
  shows "root s2 = root s \<and> (\<forall>x. map_option parent (nodes s2 x) = map_option parent (nodes s x))"
  using assms by (rule unlink_nodeE) auto

lemma sibling_before_fault:
  assumes "sibling_before s n c = Some r"
  shows "\<forall>e sf. r = Inl (e, sf) \<longrightarrow> sf = s"
  by (rule sibling_before.raw_induct
        [where P = "\<lambda>s n c r. \<forall>e sf. r = Inl (e, sf) \<longrightarrow> sf = s", OF _ assms])
     (auto split: if_splits option.splits)

lemma unlink_fault:
  assumes "unlink_node s n = Some (Inl (e, sf))"
  shows "sf = s"
proof -
  have rb: "m = Some (Inl (e, sf)) \<or> (\<exists>x. m = Some (Inr x) \<and> f x = Some (Inl (e, sf)))"
    if "rbind m f = Some (Inl (e, sf))" for m :: "'a res" and f :: "'a \<Rightarrow> 'b res"
  proof (cases m)
    case None
    with that show ?thesis by (simp add: rbind_def)
  next
    case (Some r)
    with that show ?thesis by (cases r) (simp_all add: rbind_def)
  qed
  from assms show ?thesis
    unfolding unlink_node_def
    by (auto dest!: rb dest: node_at_fault update_node_fault
        sibling_before_fault [rule_format] split: if_splits)
qed

subsection \<open>LOOKUP and FORGET in balance\<close>
















subsection \<open>The root is not released\<close>

lemma root_holdsD:
  assumes "root_holds s cs j"
  obtains r where "root s \<noteq> 0" "root s \<notin> set cs" "distinct cs" "nodes s (root s) = Some r"
    "chain (nodes s) (child r) cs" "unat (refcount r) = j + length cs"
    "\<forall>c\<in>set cs. \<exists>n. nodes s c = Some n \<and> parent n = root s"
  using assms
  by (auto simp add: root_holds_def list_all_iff split: option.splits)

lemma root_holdsI:
  assumes "root s \<noteq> 0" "root s \<notin> set cs" "distinct cs" "nodes s (root s) = Some r"
    "chain (nodes s) (child r) cs" "unat (refcount r) = j + length cs"
    "\<forall>c\<in>set cs. \<exists>n. nodes s c = Some n \<and> parent n = root s"
  shows "root_holds s cs j"
  using assms
  by (auto simp add: root_holds_def list_all_iff split: option.splits)

lemma root_holds_frame:
  assumes "root_holds s cs j" "root s' = root s"
    and nodes: "\<forall>c\<in>set cs. map_option next_sibling (nodes s' c) = map_option next_sibling (nodes s c)
        \<and> map_option parent (nodes s' c) = map_option parent (nodes s c)"
    and root: "map_option child (nodes s' (root s)) = map_option child (nodes s (root s))"
      "map_option refcount (nodes s' (root s)) = map_option refcount (nodes s (root s))"
  shows "root_holds s' cs j"
proof -
  from assms(1) obtain r where r: "root s \<noteq> 0" "root s \<notin> set cs" "distinct cs"
    "nodes s (root s) = Some r" "chain (nodes s) (child r) cs"
    "unat (refcount r) = j + length cs"
    "\<forall>c\<in>set cs. \<exists>n. nodes s c = Some n \<and> parent n = root s"
    by (rule root_holdsD)
  from root r(4) obtain r' where r': "nodes s' (root s) = Some r'" "child r' = child r"
    "refcount r' = refcount r"
    by (cases "nodes s' (root s)") auto
  have "chain (nodes s') (child r) cs"
    using chain_cong [of cs "nodes s'" "nodes s" "child r"] nodes r(5) by blast
  moreover have "\<forall>c\<in>set cs. \<exists>n. nodes s' c = Some n \<and> parent n = root s"
  proof
    fix c assume c: "c \<in> set cs"
    with r(7) obtain n where "nodes s c = Some n" "parent n = root s" by blast
    moreover from nodes c have "map_option parent (nodes s' c) = map_option parent (nodes s c)"
      by blast
    ultimately show "\<exists>n. nodes s' c = Some n \<and> parent n = root s"
      by (cases "nodes s' c") auto
  qed
  ultimately show ?thesis
    using r r' assms(2) by (intro root_holdsI [where r = r']) simp_all
qed

lemma dec_other:
  assumes "root_holds s cs j" "n \<noteq> root s" "update_node s n dec_refcount = Inr s1"
  shows "root_holds s1 cs j \<and> root s1 = root s
     \<and> (\<forall>x. map_option parent (nodes s1 x) = map_option parent (nodes s x))"
proof -
  from assms(3) obtain N where N: "nodes s n = Some N"
    "s1 = s\<lparr>nodes := (nodes s)(n \<mapsto> dec_refcount N)\<rparr>"
    by (rule update_nodeE)
  have f: "next_sibling (dec_refcount N) = next_sibling N" "parent (dec_refcount N) = parent N"
    by (simp_all add: dec_refcount_def)
  have "root_holds s1 cs j"
    using assms(1)
  proof (rule root_holds_frame)
    show "root s1 = root s" using N by simp
    show "\<forall>c\<in>set cs. map_option next_sibling (nodes s1 c) = map_option next_sibling (nodes s c)
        \<and> map_option parent (nodes s1 c) = map_option parent (nodes s c)"
      using N f by simp
  qed (use N assms(2) in simp_all)
  then show ?thesis using N f by simp
qed

lemma dec_root:
  assumes "root_holds s cs j" "2 \<le> j + length cs" "1 \<le> j"
    "update_node s (root s) dec_refcount = Inr s1"
  shows "root_holds s1 cs (j - 1) \<and> root s1 = root s
     \<and> (\<exists>r. nodes s1 (root s) = Some r \<and> refcount r \<noteq> 0)"
proof -
  from assms(1) obtain r where r: "root s \<noteq> 0" "root s \<notin> set cs" "distinct cs"
    "nodes s (root s) = Some r" "chain (nodes s) (child r) cs"
    "unat (refcount r) = j + length cs"
    "\<forall>c\<in>set cs. \<exists>n. nodes s c = Some n \<and> parent n = root s"
    by (rule root_holdsD)
  from assms(4) r(4) have s1: "s1 = s\<lparr>nodes := (nodes s)(root s \<mapsto> dec_refcount r)\<rparr>"
    by (auto elim: update_nodeE)
  from r(6) assms(2) have "0 < unat (refcount r)" by arith
  then have pos: "0 < refcount r"
    by (simp add: word_less_nat_alt)
  then have d: "dec_refcount r = r\<lparr>refcount := refcount r - 1\<rparr>"
    by (simp add: dec_refcount_def)
  from pos have "refcount r \<noteq> 0" by auto
  then have "unat (refcount r - 1) = unat (refcount r) - 1"
    by (rule unat_minus_one)
  with r(6) have u: "unat (refcount r - 1) = j + length cs - 1"
    by simp
  have ch: "chain (nodes s1) (child r) cs"
    using chain_cong [of cs "nodes s1" "nodes s" "child r"] r(2,5) s1 by auto
  have "root_holds s1 cs (j - 1)"
  proof (rule root_holdsI [where r = "r\<lparr>refcount := refcount r - 1\<rparr>"])
    show "nodes s1 (root s1) = Some (r\<lparr>refcount := refcount r - 1\<rparr>)"
      using s1 d by simp
    show "unat (refcount (r\<lparr>refcount := refcount r - 1\<rparr>)) = j - 1 + length cs"
      using u assms(3) by simp
    show "\<forall>c\<in>set cs. \<exists>n. nodes s1 c = Some n \<and> parent n = root s1"
      using r(7) r(2) s1 by auto
  qed (use r s1 ch in simp_all)
  moreover have "refcount r - 1 \<noteq> 0"
  proof
    assume "refcount r - 1 = 0"
    then have "unat (refcount r - 1) = 0" by simp
    with u assms(2) show False by arith
  qed
  ultimately show ?thesis using s1 d by simp
qed

lemma unlink_other:
  assumes "root_holds s cs j" "unlink_node s n = Some (Inr s2)" "nodes s n = Some N"
    "parent N \<noteq> root s"
  shows "root_holds s2 cs j \<and> n \<notin> set cs"
proof -
  from assms(1) obtain r where r: "root s \<noteq> 0" "root s \<notin> set cs" "distinct cs"
    "nodes s (root s) = Some r" "chain (nodes s) (child r) cs"
    "unat (refcount r) = j + length cs"
    "\<forall>c\<in>set cs. \<exists>n. nodes s c = Some n \<and> parent n = root s"
    by (rule root_holdsD)
  from r(7) assms(3,4) have out: "n \<notin> set cs" by auto
  from assms(2) have "root_holds s2 cs j"
  proof (rule unlink_nodeE)
    fix N' Q assume a: "nodes s n = Some N'" "nodes s (parent N') = Some Q"
      "s2 = s\<lparr>nodes := (nodes s)(parent N' \<mapsto> Q\<lparr>child := next_sibling N'\<rparr>)\<rparr>"
    with assms(3) have NN: "N' = N" by simp
    show "root_holds s2 cs j"
      using assms(1)
    proof (rule root_holds_frame)
      show "\<forall>c\<in>set cs. map_option next_sibling (nodes s2 c) = map_option next_sibling (nodes s c)
        \<and> map_option parent (nodes s2 c) = map_option parent (nodes s c)"
        using a by simp
    qed (use a NN assms(4) in simp_all)
  next
    fix N' Q m M assume a: "n \<noteq> 0" "nodes s n = Some N'" "nodes s m = Some M"
      "next_sibling M = n"
      "s2 = s\<lparr>nodes := (nodes s)(m \<mapsto> M\<lparr>next_sibling := next_sibling N'\<rparr>)\<rparr>"
    have m: "m \<notin> set cs"
    proof
      assume "m \<in> set cs"
      from chain_next [OF r(5) this a(3)] a(4,1) out show False by simp
    qed
    show "root_holds s2 cs j"
      using assms(1)
    proof (rule root_holds_frame)
      show "\<forall>c\<in>set cs. map_option next_sibling (nodes s2 c) = map_option next_sibling (nodes s c)
        \<and> map_option parent (nodes s2 c) = map_option parent (nodes s c)"
        using a m by auto
    qed (use a in simp_all)
  qed
  with out show ?thesis by simp
qed

lemma unlink_root:
  assumes "root_holds s cs j" "unlink_node s n = Some (Inr s2)" "nodes s n = Some N"
    "parent N = root s"
  shows "root_holds s2 (remove1 n cs) (Suc j) \<and> n \<in> set cs"
proof -
  from assms(1) obtain r where r: "root s \<noteq> 0" "root s \<notin> set cs" "distinct cs"
    "nodes s (root s) = Some r" "chain (nodes s) (child r) cs"
    "unat (refcount r) = j + length cs"
    "\<forall>c\<in>set cs. \<exists>n. nodes s c = Some n \<and> parent n = root s"
    by (rule root_holdsD)
  from assms(2) show ?thesis
  proof (rule unlink_nodeE)
    fix N' Q assume a: "n \<noteq> 0" "nodes s n = Some N'" "nodes s (parent N') = Some Q"
      "child Q = n"
      "s2 = s\<lparr>nodes := (nodes s)(parent N' \<mapsto> Q\<lparr>child := next_sibling N'\<rparr>)\<rparr>"
    with assms(3,4) r(4) have NN: "N' = N" "Q = r" by simp_all
    from r(5) a(1,4) NN obtain cs' where cs: "cs = n # cs'"
      using chain_head by blast
    with r(5) a(2) a(4) NN have ch: "chain (nodes s) (next_sibling N) cs'" by simp
    have s2: "s2 = s\<lparr>nodes := (nodes s)(root s \<mapsto> r\<lparr>child := next_sibling N\<rparr>)\<rparr>"
      using a(5) NN assms(4) by simp
    have ch2: "chain (nodes s2) (next_sibling N) cs'"
      using chain_cong [of cs' "nodes s2" "nodes s" "next_sibling N"] ch r(2) cs s2 by auto
    have "root_holds s2 cs' (Suc j)"
    proof (rule root_holdsI [where r = "r\<lparr>child := next_sibling N\<rparr>"])
      show "nodes s2 (root s2) = Some (r\<lparr>child := next_sibling N\<rparr>)" using s2 by simp
      show "chain (nodes s2) (child (r\<lparr>child := next_sibling N\<rparr>)) cs'" using ch2 by simp
      show "unat (refcount (r\<lparr>child := next_sibling N\<rparr>)) = Suc j + length cs'"
        using r(6) cs by simp
      show "\<forall>c\<in>set cs'. \<exists>n. nodes s2 c = Some n \<and> parent n = root s2"
        using r(7) r(2) cs s2 by auto
    qed (use r cs s2 in simp_all)
    with cs show ?thesis by simp
  next
    fix N' Q m M assume a: "n \<noteq> 0" "nodes s n = Some N'" "nodes s (parent N') = Some Q"
      "child Q \<noteq> n" "sibling_before s n (child Q) = Some (Inr m)" "nodes s m = Some M"
      "s2 = s\<lparr>nodes := (nodes s)(m \<mapsto> M\<lparr>next_sibling := next_sibling N'\<rparr>)\<rparr>"
    with assms(3,4) r(4) have NN: "N' = N" "Q = r" by simp_all
    from sibling_before_chain [OF r(5) a(1) _ a(5) [unfolded NN]] a(4) NN
    obtain us vs where cs: "cs = us @ m # n # vs" by auto
    with r(3) have rm: "remove1 n cs = us @ m # vs"
      by (simp add: remove1_append)
    from cs r(2) have mr: "m \<noteq> root s" by auto
    have ch2: "chain (nodes s2) (child r) (us @ m # vs)"
      using chain_unlink [OF r(5) [unfolded cs] r(3) [unfolded cs] a(6) assms(3)] a(7) NN
      by simp
    have "root_holds s2 (us @ m # vs) (Suc j)"
    proof (rule root_holdsI [where r = r])
      show "nodes s2 (root s2) = Some r" using a(7) mr r(4) by simp
      show "unat (refcount r) = Suc j + length (us @ m # vs)" using r(6) cs by simp
      show "\<forall>c\<in>set (us @ m # vs). \<exists>n. nodes s2 c = Some n \<and> parent n = root s2"
        using r(7) cs a(6,7) by auto
      show "chain (nodes s2) (child r) (us @ m # vs)" by (rule ch2)
    qed (use r cs a(7) in auto)
    with rm cs show ?thesis by simp
  qed
qed

lemma release_tail:
  assumes "root_holds s3 cs j" "n \<noteq> root s3" "n \<notin> set cs"
    and "sbind (update_node s3 n (\<lambda>n. n\<lparr>parent := 0\<rparr>)) (\<lambda>s4.
         sbind (update_node s4 n (\<lambda>n. n\<lparr>next_sibling := 0\<rparr>)) (\<lambda>s5.
         free_node s5 n)) = Inr s'"
  shows "root_holds s' cs j \<and> root s' = root s3"
proof -
  from assms(4) have s': "root s' = root s3" "\<forall>x. x \<noteq> n \<longrightarrow> nodes s' x = nodes s3 x"
    by (auto elim!: sbindE update_nodeE free_nodeE)
  have "root_holds s' cs j"
    using assms(1)
  proof (rule root_holds_frame)
    show "\<forall>c\<in>set cs. map_option next_sibling (nodes s' c) = map_option next_sibling (nodes s3 c)
        \<and> map_option parent (nodes s' c) = map_option parent (nodes s3 c)"
      using s' assms(3) by auto
  qed (use s' assms(2) in auto)
  with s' show ?thesis by simp
qed

lemma tail_fault:
  assumes "sbind (update_node s3 n (\<lambda>n. n\<lparr>parent := 0\<rparr>)) (\<lambda>s4.
         sbind (update_node s4 n (\<lambda>n. n\<lparr>next_sibling := 0\<rparr>)) (\<lambda>s5.
         free_node s5 n)) = Inl (e, sf)" "n \<noteq> root s3"
  shows "root sf = root s3 \<and> nodes sf (root s3) = nodes s3 (root s3)"
  using assms
  by (auto elim!: sbind_InlE update_nodeE
      dest!: update_node_fault free_node_fault)

lemma root_holds_alive:
  assumes "root_holds s cs j" "1 \<le> j"
  shows "root_alive s"
proof -
  from assms(1) obtain r where "nodes s (root s) = Some r" "unat (refcount r) = j + length cs"
    by (rule root_holdsD)
  with assms(2) show ?thesis by (auto simp add: root_alive_def)
qed

lemma root_alive_same:
  "root_alive s \<Longrightarrow> root sf = root s \<Longrightarrow> nodes sf (root s) = nodes s (root s) \<Longrightarrow> root_alive sf"
  by (simp add: root_alive_def)

lemma node_release_root_holds:
  assumes "node_release s n = Some res"
  shows "\<forall>cs j. root_holds s cs j \<longrightarrow> 1 \<le> j \<longrightarrow>
     (\<forall>s'. res = Inr s' \<longrightarrow>
        (n = root s \<longrightarrow> 2 \<le> j + length cs \<longrightarrow> root_holds s' cs (j - 1) \<and> root s' = root s) \<and>
        (n \<noteq> root s \<longrightarrow> (\<exists>cs'. root_holds s' cs' j \<and> set cs' \<subseteq> set cs \<and> root s' = root s))) \<and>
     (\<forall>e sf. res = Inl (e, sf) \<longrightarrow> (n = root s \<longrightarrow> 2 \<le> j + length cs) \<longrightarrow>
        root_alive sf \<and> root sf = root s)"
proof (rule node_release.raw_induct
    [where P = "\<lambda>s n res. \<forall>cs j. root_holds s cs j \<longrightarrow> 1 \<le> j \<longrightarrow>
     (\<forall>s'. res = Inr s' \<longrightarrow>
        (n = root s \<longrightarrow> 2 \<le> j + length cs \<longrightarrow> root_holds s' cs (j - 1) \<and> root s' = root s) \<and>
        (n \<noteq> root s \<longrightarrow> (\<exists>cs'. root_holds s' cs' j \<and> set cs' \<subseteq> set cs \<and> root s' = root s))) \<and>
     (\<forall>e sf. res = Inl (e, sf) \<longrightarrow> (n = root s \<longrightarrow> 2 \<le> j + length cs) \<longrightarrow>
        root_alive sf \<and> root sf = root s)",
     OF _ assms], goal_cases)
  case (1 nr s n res)
  note IH = 1(1) and body = 1(2)
  show ?case
  proof (intro allI impI)
    fix cs j
    assume G: "root_holds s cs j" and j: "1 \<le> j"
    have alive: "root_alive s" using G j by (rule root_holds_alive)
    \<comment> \<open>what is to be shown, for a state reached by returning and for one reached by a fault\<close>
    let ?ret = "\<lambda>s'. (n = root s \<longrightarrow> 2 \<le> j + length cs \<longrightarrow> root_holds s' cs (j - 1) \<and> root s' = root s) \<and>
        (n \<noteq> root s \<longrightarrow> (\<exists>cs'. root_holds s' cs' j \<and> set cs' \<subseteq> set cs \<and> root s' = root s))"
    let ?flt = "\<lambda>sf. (n = root s \<longrightarrow> 2 \<le> j + length cs) \<longrightarrow> root_alive sf \<and> root sf = root s"
    have goal: "(\<forall>s'. res = Inr s' \<longrightarrow> ?ret s') \<and> (\<forall>e sf. res = Inl (e, sf) \<longrightarrow> ?flt sf)"
    proof (cases "update_node s n dec_refcount")
      case (Inl x)
      with body have "res = Inl x" by simp
      moreover from Inl have "snd x = s" by (cases x) (auto dest: update_node_fault)
      ultimately show ?thesis using alive by auto
    next
      case s1: (Inr s1)
      show ?thesis
      proof (cases "n = root s")
        case True
        show ?thesis
        proof (cases "2 \<le> j + length cs")
          case False
          with True show ?thesis by simp
        next
          case two: True
          from dec_root [OF G two j s1 [unfolded True]]
          obtain r1 where d: "root_holds s1 cs (j - 1)" "root s1 = root s"
            "nodes s1 (root s) = Some r1" "refcount r1 \<noteq> 0"
            by auto
          from G have "root s \<noteq> 0" by (auto elim: root_holdsD)
          with d(3) True have "node_at s1 n = Inr r1" by (simp add: node_at_def)
          with body s1 d(4) have "res = Inr s1" by simp
          with d True show ?thesis by simp
        qed
      next
        case nroot: False
        from dec_other [OF G nroot s1]
        have d: "root_holds s1 cs j" "root s1 = root s"
          "\<forall>x. map_option parent (nodes s1 x) = map_option parent (nodes s x)"
          by auto
        have alive1: "root_alive s1" using d(1) j by (rule root_holds_alive)
        show ?thesis
        proof (cases "node_at s1 n")
          case (Inl x)
          with body s1 have "res = Inl x" by simp
          moreover from Inl have "snd x = s1" by (cases x) (auto dest: node_at_fault)
          ultimately show ?thesis using alive1 d(2) by auto
        next
          case n1: (Inr n1)
          then have n1': "nodes s1 n = Some n1" by (auto elim: node_atE)
          show ?thesis
          proof (cases "refcount n1 = 0")
            case False
            with body s1 n1 have "res = Inr s1" by simp
            with d nroot show ?thesis by auto
          next
            case zero: True
            with body s1 n1 have body2: "Option.bind (unlink_node s1 n) (\<lambda>r2.
                   case r2 of
                     Inl e \<Rightarrow> Some (Inl e)
                   | Inr s2 \<Rightarrow>
                       (case node_at s2 n of
                          Inl e \<Rightarrow> Some (Inl e)
                        | Inr n2 \<Rightarrow>
                            Option.bind (nr s2 (parent n2)) (\<lambda>r3.
                              case r3 of
                                Inl e \<Rightarrow> Some (Inl e)
                              | Inr s3 \<Rightarrow>
                                  Some (sbind (update_node s3 n (\<lambda>n. n\<lparr>parent := 0\<rparr>)) (\<lambda>s4.
                                        sbind (update_node s4 n (\<lambda>n. n\<lparr>next_sibling := 0\<rparr>)) (\<lambda>s5.
                                        free_node s5 n)))))) = Some res"
              by simp
            then obtain r2 where r2: "unlink_node s1 n = Some r2"
              by (cases "unlink_node s1 n") auto
            show ?thesis
            proof (cases r2)
              case (Inl x)
              with body2 r2 have "res = Inl x" by simp
              moreover from Inl r2 have "snd x = s1" by (cases x) (auto dest: unlink_fault)
              ultimately show ?thesis using alive1 d(2) by auto
            next
              case s2: (Inr s2)
              from r2 s2 have u2: "unlink_node s1 n = Some (Inr s2)" by simp
              from unlink_parent [OF u2]
              have up: "root s2 = root s1"
                "\<forall>x. map_option parent (nodes s2 x) = map_option parent (nodes s1 x)"
                by auto
              \<comment> \<open>the invariant after unlinking, with the list and the surplus that hold then\<close>
              have "\<exists>cs2 j2. root_holds s2 cs2 j2 \<and> n \<notin> set cs2 \<and> set cs2 \<subseteq> set cs
                  \<and> (if parent n1 = root s1 then j2 = Suc j else j2 = j)"
              proof (cases "parent n1 = root s1")
                case True
                from unlink_root [OF d(1) u2 n1' True]
                have G2: "root_holds s2 (remove1 n cs) (Suc j)" by auto
                from d(1) have "distinct cs" by (auto elim: root_holdsD)
                then have "n \<notin> set (remove1 n cs)" by simp
                moreover have "set (remove1 n cs) \<subseteq> set cs" by (rule set_remove1_subset)
                ultimately show ?thesis using G2 True by auto
              next
                case False
                from unlink_other [OF d(1) u2 n1' False] False show ?thesis by auto
              qed
              then obtain cs2 j2 where G2: "root_holds s2 cs2 j2" "n \<notin> set cs2"
                "set cs2 \<subseteq> set cs" "if parent n1 = root s1 then j2 = Suc j else j2 = j"
                by blast
              from G2(4) j have j2: "1 \<le> j2" by (auto split: if_splits)
              have alive2: "root_alive s2" using G2(1) j2 by (rule root_holds_alive)
              show ?thesis
              proof (cases "node_at s2 n")
                case (Inl x)
                with body2 r2 s2 have "res = Inl x" by simp
                moreover from Inl have "snd x = s2" by (cases x) (auto dest: node_at_fault)
                ultimately show ?thesis using alive2 up(1) d(2) by auto
              next
                case n2: (Inr n2)
                then have n2': "nodes s2 n = Some n2" by (auto elim: node_atE)
                from up(2) n1' n2' have par: "parent n2 = parent n1"
                  by (auto dest: spec [of _ n])
                from body2 r2 s2 n2 have body3: "Option.bind (nr s2 (parent n2)) (\<lambda>r3.
                              case r3 of
                                Inl e \<Rightarrow> Some (Inl e)
                              | Inr s3 \<Rightarrow>
                                  Some (sbind (update_node s3 n (\<lambda>n. n\<lparr>parent := 0\<rparr>)) (\<lambda>s4.
                                        sbind (update_node s4 n (\<lambda>n. n\<lparr>next_sibling := 0\<rparr>)) (\<lambda>s5.
                                        free_node s5 n)))) = Some res"
                  by simp
                then obtain r3 where r3: "nr s2 (parent n2) = Some r3"
                  by (cases "nr s2 (parent n2)") auto
                note ih = IH [OF r3, rule_format, OF G2(1) j2]
                show ?thesis
                proof (cases r3)
                  case (Inl x)
                  with body3 r3 have res: "res = Inl x" by simp
                  obtain e sf where x: "x = (e, sf)" by (cases x)
                  have "parent n2 = root s2 \<longrightarrow> 2 \<le> j2 + length cs2"
                    using G2(4) par up(1) j by (auto split: if_splits)
                  with ih [THEN conjunct2, rule_format, of e sf] Inl x
                  have "root_alive sf \<and> root sf = root s2" by simp
                  with res x up(1) d(2) show ?thesis by simp
                next
                  case s3: (Inr s3)
                  from ih [THEN conjunct1, rule_format, OF s3] G2(4) par up(1) j
                  have "\<exists>cs3. root_holds s3 cs3 j \<and> set cs3 \<subseteq> set cs2 \<and> root s3 = root s2"
                    by (auto split: if_splits)
                  then obtain cs3 where G3: "root_holds s3 cs3 j" "set cs3 \<subseteq> set cs2"
                    "root s3 = root s2"
                    by blast
                  from G3(2) G2(2) have nin: "n \<notin> set cs3" by auto
                  from G3(3) up(1) d(2) nroot have nr3: "n \<noteq> root s3" by simp
                  have alive3: "root_alive s3" using G3(1) j by (rule root_holds_alive)
                  from body3 r3 s3 have tail: "res = sbind (update_node s3 n (\<lambda>n. n\<lparr>parent := 0\<rparr>)) (\<lambda>s4.
                                        sbind (update_node s4 n (\<lambda>n. n\<lparr>next_sibling := 0\<rparr>)) (\<lambda>s5.
                                        free_node s5 n))"
                    by simp
                  show ?thesis
                  proof (cases res)
                    case (Inl x)
                    obtain e sf where x: "x = (e, sf)" by (cases x)
                    from tail_fault [OF tail [symmetric, unfolded Inl x] nr3]
                    have sf: "root sf = root s3" "nodes sf (root s3) = nodes s3 (root s3)" by auto
                    from alive3 sf have "root_alive sf" by (rule root_alive_same)
                    with Inl x sf(1) G3(3) up(1) d(2) show ?thesis by simp
                  next
                    case (Inr s')
                    from release_tail [OF G3(1) nr3 nin tail [symmetric, unfolded Inr]]
                    have "root_holds s' cs3 j \<and> root s' = root s3" .
                    with Inr G3(2,3) G2(3) up(1) d(2) nroot show ?thesis by auto
                  qed
                qed
              qed
            qed
          qed
        qed
      qed
    qed
    then show "(\<forall>s'. res = Inr s' \<longrightarrow>
        (n = root s \<longrightarrow> 2 \<le> j + length cs \<longrightarrow> root_holds s' cs (j - 1) \<and> root s' = root s) \<and>
        (n \<noteq> root s \<longrightarrow> (\<exists>cs'. root_holds s' cs' j \<and> set cs' \<subseteq> set cs \<and> root s' = root s))) \<and>
     (\<forall>e sf. res = Inl (e, sf) \<longrightarrow> (n = root s \<longrightarrow> 2 \<le> j + length cs) \<longrightarrow>
        root_alive sf \<and> root sf = root s)"
      by simp
  qed
qed

lemma node_release_other:
  assumes "node_release s n = Some res" "root_holds s cs j" "1 \<le> j" "n \<noteq> root s"
  shows "case res of
           Inl (e, sf) \<Rightarrow> root_alive sf \<and> root sf = root s
         | Inr s' \<Rightarrow> \<exists>cs'. root_holds s' cs' j \<and> root s' = root s"
  using node_release_root_holds [OF assms(1), rule_format, OF assms(2,3)] assms(4)
  by (cases res) auto

lemma node_release_root:
  assumes "node_release s (root s) = Some res" "root_holds s cs j" "2 \<le> j"
  shows "case res of
           Inl (e, sf) \<Rightarrow> root_alive sf \<and> root sf = root s
         | Inr s' \<Rightarrow> root_holds s' cs (j - 1) \<and> root s' = root s"
proof -
  from assms(3) have "1 \<le> j" "2 \<le> j + length cs" by simp_all
  with node_release_root_holds [OF assms(1), rule_format, OF assms(2)]
  show ?thesis by (cases res) auto
qed

lemma forget_other:
  assumes "forget c s n = Some res" "root_holds s cs j" "1 \<le> j" "n \<noteq> root s"
  shows "case res of
           Inl (e, sf) \<Rightarrow> root_alive sf \<and> root sf = root s
         | Inr s' \<Rightarrow> \<exists>cs'. root_holds s' cs' j \<and> root s' = root s"
  using assms
proof (induction c arbitrary: s cs)
  case 0
  then show ?case by auto
next
  case (Suc c)
  from Suc.prems(1) have "rbind (node_release s n) (\<lambda>s1. forget c s1 n) = Some res" by simp
  then show ?case
  proof (cases rule: rbind_cases)
    case (1 x)
    with node_release_other [OF 1(1) Suc.prems(2,3,4)] show ?thesis by simp
  next
    case (2 s1)
    from node_release_other [OF 2(1) Suc.prems(2,3,4)]
    obtain cs1 where h: "root_holds s1 cs1 j" "root s1 = root s" by auto
    from Suc.IH [OF 2(2) h(1) Suc.prems(3)] Suc.prems(4) h(2)
    show ?thesis by (cases res) auto
  qed
qed

lemma forget_root:
  assumes "forget c s (root s) = Some res" "root_holds s cs j" "c < j"
  shows "case res of
           Inl (e, sf) \<Rightarrow> root_alive sf \<and> root sf = root s
         | Inr s' \<Rightarrow> root_holds s' cs (j - c) \<and> root s' = root s"
  using assms
proof (induction c arbitrary: s j)
  case 0
  then show ?case by auto
next
  case (Suc c)
  from Suc.prems(3) have two: "2 \<le> j" by simp
  from Suc.prems(1) have "rbind (node_release s (root s)) (\<lambda>s1. forget c s1 (root s)) = Some res"
    by simp
  then show ?case
  proof (cases rule: rbind_cases)
    case (1 x)
    with node_release_root [OF 1(1) Suc.prems(2) two] show ?thesis by simp
  next
    case (2 s1)
    from node_release_root [OF 2(1) Suc.prems(2) two]
    have h: "root_holds s1 cs (j - 1)" "root s1 = root s" by auto
    from 2(2) h(2) have "forget c s1 (root s1) = Some res" by simp
    from Suc.IH [OF this h(1)] Suc.prems(3) h(2)
    show ?thesis by (cases res) auto
  qed
qed

lemma handle_forget_request:
  assumes "root s \<noteq> 0"
  shows "handle_fuse_request k y s hdr (FUSE_FORGET c) n =
     (if n < sizeof_fuse_in_header k \<or> len hdr \<noteq> n then Some (Inr s)
      else forget (unat c) s (lookup_by_inode s (nodeid hdr)))"
  using assms
  by (auto simp add: handle_fuse_request_def lookup_by_inode_def FUSE_ROOT_ID_def Let_def)

lemma root_forgets_step:
  "root s1 = root s \<Longrightarrow>
   (case q of FUSE_FORGET c \<Rightarrow> (if lookup_by_inode s1 x = root s1 then unat c else 0) | _ \<Rightarrow> 0)
   = (case q of FUSE_FORGET c \<Rightarrow> (if lookup_by_inode s x = root s then unat c else 0) | _ \<Rightarrow> 0)"
  by (cases q) (simp_all add: lookup_by_inode_def)

lemma root_forgets_cong: "root s1 = root s \<Longrightarrow> root_forgets s1 rs = root_forgets s rs"
  by (induction rs) (simp_all add: root_forgets_step [of s1 s])

lemma root_holds_errno: "root_holds (s\<lparr>errno := e\<rparr>) cs j = root_holds s cs j"
  by (simp add: root_holds_def cong: option.case_cong)

lemma forgets_root_holds:
  assumes "handle_fuse_requests k rs s = Some res" "root_holds s cs j"
    "\<forall>i\<in>set rs. is_forget (in_req i)" "root_forgets s rs < j"
  shows "\<exists>s'. final_state (Some res) = Some s' \<and> root_alive s' \<and> root s' = root s"
  using assms
proof (induction rs arbitrary: s cs j)
  case Nil
  from Nil.prems(4) have "1 \<le> j" by simp
  with Nil.prems(2) have "root_alive s" by (rule root_holds_alive)
  with Nil.prems(1) show ?case by (auto simp add: final_state_def)
next
  case (Cons i rs)
  from Cons.prems(3) obtain c where c: "in_req i = FUSE_FORGET c"
    by (cases "in_req i") auto
  from Cons.prems(2) have r0: "root s \<noteq> 0" by (auto elim: root_holdsD)
  from Cons.prems(3) have fs: "\<forall>i\<in>set rs. is_forget (in_req i)" by simp
  from Cons.prems(4) have j1: "1 \<le> j" by simp
  from Cons.prems(4) have rs_lt: "root_forgets s rs < j"
    unfolding root_forgets.simps by arith
  have alive: "root_alive s" using Cons.prems(2) j1 by (rule root_holds_alive)
  show ?case
  proof (cases "in_len i < 0")
    case True
    show ?thesis
    proof (cases "in_errno i = EINTR")
      case False
      with True Cons.prems(1) have "res = Inr (Returned (s\<lparr>errno := in_errno i\<rparr>))" by simp
      with alive show ?thesis by (simp add: final_state_def root_alive_def)
    next
      case eintr: True
      with True Cons.prems(1)
      have run: "handle_fuse_requests k rs (s\<lparr>errno := in_errno i\<rparr>) = Some res" by simp
      have lt: "root_forgets (s\<lparr>errno := in_errno i\<rparr>) rs < j"
        using rs_lt root_forgets_cong [of "s\<lparr>errno := in_errno i\<rparr>" s rs] by simp
      have "root_holds (s\<lparr>errno := in_errno i\<rparr>) cs j"
        using Cons.prems(2) by (simp add: root_holds_errno)
      from Cons.IH [OF run this fs lt] show ?thesis by simp
    qed
  next
    case False
    let ?n = "word_of_int (in_len i) :: u32"
    from False Cons.prems(1) c
    have "rbind (handle_fuse_request k (in_sys i) s (in_hdr i) (FUSE_FORGET c) ?n)
            (\<lambda>s1. handle_fuse_requests k rs s1) = Some res"
      by simp
    then show ?thesis
    proof (cases rule: rbind_cases)
      case (1 x)
      obtain e sf where x: "x = (e, sf)" by (cases x)
      from 1(1) have bad: "\<not> (?n < sizeof_fuse_in_header k \<or> len (in_hdr i) \<noteq> ?n)"
        by (auto simp add: handle_fuse_request_def split: if_splits)
      with 1(1) have fg: "forget (unat c) s (lookup_by_inode s (nodeid (in_hdr i))) = Some (Inl x)"
        by (simp add: handle_forget_request [OF r0])
      have "root_alive sf \<and> root sf = root s"
      proof (cases "lookup_by_inode s (nodeid (in_hdr i)) = root s")
        case True
        with Cons.prems(4) c have lt: "unat c < j" by simp
        from forget_root [OF fg [unfolded True] Cons.prems(2) lt] x show ?thesis by simp
      next
        case False
        from forget_other [OF fg Cons.prems(2) j1 False] x show ?thesis by simp
      qed
      with 1(2) x show ?thesis by (simp add: final_state_def)
    next
      case (2 s1)
      have "\<exists>cs1 j1. root_holds s1 cs1 j1 \<and> root s1 = root s \<and> root_forgets s rs < j1"
      proof (cases "?n < sizeof_fuse_in_header k \<or> len (in_hdr i) \<noteq> ?n")
        case True
        with 2(1) have "s1 = s" by (simp add: handle_fuse_request_def)
        with Cons.prems(2) rs_lt show ?thesis by (intro exI [of _ cs] exI [of _ j]) simp
      next
        case False
        with 2(1) have fg: "forget (unat c) s (lookup_by_inode s (nodeid (in_hdr i))) = Some (Inr s1)"
          by (simp add: handle_forget_request [OF r0])
        show ?thesis
        proof (cases "lookup_by_inode s (nodeid (in_hdr i)) = root s")
          case True
          with Cons.prems(4) c have lt: "unat c < j" "root_forgets s rs < j - unat c" by simp_all
          from forget_root [OF fg [unfolded True] Cons.prems(2) lt(1)] lt(2)
          show ?thesis by auto
        next
          case False
          with forget_other [OF fg Cons.prems(2) j1 False] rs_lt show ?thesis by auto
        qed
      qed
      then obtain cs1 j1 where h: "root_holds s1 cs1 j1" "root s1 = root s"
        "root_forgets s rs < j1"
        by blast
      from h(3) root_forgets_cong [OF h(2), of rs] have "root_forgets s1 rs < j1" by simp
      from Cons.IH [OF 2(2) h(1) fs this] h(2) show ?thesis by auto
    qed
  qed
qed

lemma fuse_init_root_holds:
  assumes "fuse_init y0 s0 fd0 path = Inr s"
  shows "root_holds s [] 2"
  using assms
  by (auto simp add: fuse_init_def rename_node_def heap_defs Let_def root_holds_def
      split: if_splits option.splits sum.splits)

text \<open>
  C6, as the code has it: \<^verbatim>\<open>fuse_init\<close> seeds the count of the root with 2, and the root
  holds one more reference for each child. From every state in which the count of the
  root is 2 plus the number of its children, no sequence of FORGET requests that forgets
  at most one reference on the root itself brings the count of the root to zero: in the
  state the run ends in, whether the loop has handled the whole sequence or a request
  has faulted on the way, the root is allocated and its count is not zero.
  (FORGET requests for two or more references on the root do release it.)
\<close>

theorem root_outlives_forgets:
  assumes "root_holds s cs 2" "\<forall>i\<in>set rs. is_forget (in_req i)" "root_forgets s rs \<le> 1"
    "handle_fuse_requests k rs s = Some res"
  shows "(\<exists>s'. final_state (Some res) = Some s' \<and> root s' = root s \<and> root_alive s')
       \<and> (\<forall>y0 s0 fd0 path s1. fuse_init y0 s0 fd0 path = Inr s1 \<longrightarrow> root_holds s1 [] 2)"
proof -
  from assms(3) have "root_forgets s rs < 2" by simp
  from forgets_root_holds [OF assms(4) assms(1) assms(2) this]
  have "\<exists>s'. final_state (Some res) = Some s' \<and> root s' = root s \<and> root_alive s'"
    by blast
  with fuse_init_root_holds show ?thesis by blast
qed

text \<open>The theorem at the session with one child: the child is forgotten, then one
  reference on the root.\<close>

theorem root_outlives_forgets_witness:
  "root_holds hello_session [0x1000] 2
   \<and> root_forgets hello_session
        [Incoming 48 0 \<lparr>len = 48, unique = 2, nodeid = 0x1000\<rparr> (FUSE_FORGET 1) quiet_sys,
         Incoming 48 0 \<lparr>len = 48, unique = 3, nodeid = 1\<rparr> (FUSE_FORGET 1) quiet_sys] = 1
   \<and> map_option refcount (run_nodes (handle_fuse_requests example_headers
        [Incoming 48 0 \<lparr>len = 48, unique = 2, nodeid = 0x1000\<rparr> (FUSE_FORGET 1) quiet_sys,
         Incoming 48 0 \<lparr>len = 48, unique = 3, nodeid = 1\<rparr> (FUSE_FORGET 1) quiet_sys]
        hello_session) 0x7000) = Some 1
   \<and> run_nodes (handle_fuse_requests example_headers
        [Incoming 48 0 \<lparr>len = 48, unique = 2, nodeid = 0x1000\<rparr> (FUSE_FORGET 1) quiet_sys,
         Incoming 48 0 \<lparr>len = 48, unique = 3, nodeid = 1\<rparr> (FUSE_FORGET 1) quiet_sys]
        hello_session) 0x1000 = None
   \<and> map_option root_alive (final_state (handle_fuse_requests example_headers
        [Incoming 48 0 \<lparr>len = 48, unique = 2, nodeid = 0x1000\<rparr> (FUSE_FORGET 1) quiet_sys,
         Incoming 48 0 \<lparr>len = 48, unique = 3, nodeid = 1\<rparr> (FUSE_FORGET 1) quiet_sys]
        hello_session)) = Some True"
proof -
  let ?rs = "[Incoming 48 0 \<lparr>len = 48, unique = 2, nodeid = 0x1000\<rparr> (FUSE_FORGET 1) quiet_sys,
         Incoming 48 0 \<lparr>len = 48, unique = 3, nodeid = 1\<rparr> (FUSE_FORGET 1) quiet_sys]"
  have h: "root_holds hello_session [0x1000] 2"
    by (simp add: root_holds_def hello_session_def)
  have f: "root_forgets hello_session ?rs = 1"
    by (simp add: hello_session_def lookup_by_inode_def FUSE_ROOT_ID_def)
  have fg: "\<forall>i\<in>set ?rs. is_forget (in_req i)" by simp
  have run: "handle_fuse_requests example_headers ?rs hello_session
     = Some (Inr (Reading (hello_session\<lparr>nodes := [0x7000 \<mapsto> \<lparr>nid = 1, gen = 0, next_sibling = 0,
          child = 0, all_nodes = 0, parent = 0, refcount = 1, namelen = 11,
          name = Some ''/data/media''\<rparr>]\<rparr>)))"
    by (simp add: run_defs hello_session_def)
  from root_outlives_forgets [OF h fg _ run] f h run
  show ?thesis by (auto simp add: run_nodes_def run_state_def)
qed

text \<open>The claim as stated fails: in the fresh session the count of the root is 2; a FORGET
  of one reference on the root leaves 1, the next release step leaves 0, and a FORGET of
  two references ends in the dereference of the root's null parent.\<close>

theorem forget_root_twice:
  "map_option refcount (nodes fresh 0x7000) = Some 2
   \<and> map_option refcount (run_nodes (handle_fuse_requests example_headers
       [Incoming 48 0 \<lparr>len = 48, unique = 1, nodeid = 1\<rparr> (FUSE_FORGET 1) quiet_sys] fresh)
       0x7000) = Some 1
   \<and> handle_fuse_requests example_headers
       [Incoming 48 0 \<lparr>len = 48, unique = 1, nodeid = 1\<rparr> (FUSE_FORGET 2) quiet_sys] fresh
     = Some (Inl (Null_deref,
         fresh\<lparr>nodes := [0x7000 \<mapsto> \<lparr>nid = 1, gen = 0, next_sibling = 0, child = 0,
           all_nodes = 0, parent = 0, refcount = 0, namelen = 11,
           name = Some ''/data/media''\<rparr>]\<rparr>))"
  by (simp add: run_defs forget_2)

end
